theory Spec2Isabelle
  imports Main "HOL-Library.List_Lexorder" "HOL-Library.Sublist"
begin

section \<open>Python values\<close>

subsection \<open>Strings\<close>

text \<open>
  A Python \<open>str\<close> is a sequence of Unicode code points: \<open>len\<close> and slicing count code
  points and comparison is lexicographic on them. A string is therefore a list of code
  points, and \<open>U\<close> turns an ASCII literal into one.
\<close>

type_synonym ustr = "nat list"

definition U :: "string \<Rightarrow> ustr" where
  "U s = map of_char s"

definition is_space :: "nat \<Rightarrow> bool" where
  \<comment> \<open>\<open>str.isspace\<close> on one code point; the class \<open>\s\<close> of \<open>re\<close> on \<open>str\<close> patterns is the same set.\<close>
  "is_space c \<longleftrightarrow>
     (9 \<le> c \<and> c \<le> 13) \<or> (28 \<le> c \<and> c \<le> 32) \<or> c = 133 \<or> c = 160 \<or> c = 5760 \<or>
     (8192 \<le> c \<and> c \<le> 8202) \<or> c = 8232 \<or> c = 8233 \<or> c = 8239 \<or> c = 8287 \<or> c = 12288"

definition py_lstrip :: "ustr \<Rightarrow> ustr" where
  "py_lstrip s = dropWhile is_space s"

definition py_rstrip :: "ustr \<Rightarrow> ustr" where
  "py_rstrip s = rev (dropWhile is_space (rev s))"

definition py_strip :: "ustr \<Rightarrow> ustr" where
  \<comment> \<open>\<open>s.strip()\<close>\<close>
  "py_strip s = py_rstrip (py_lstrip s)"

definition py_lower :: "ustr \<Rightarrow> ustr" where
  \<comment> \<open>\<open>s.lower()\<close> on the ASCII letters. Beyond ASCII only U+0130 and U+212A lowercase to
      text with an ASCII letter (\<open>i\<close> followed by U+0307, and \<open>k\<close>), so membership of the
      result in a set of extensions without \<open>k\<close> is decided by the ASCII letters.\<close>
  "py_lower s = map (\<lambda>c. if 65 \<le> c \<and> c \<le> 90 then c + 32 else c) s"

definition py_join :: "ustr \<Rightarrow> ustr list \<Rightarrow> ustr" where
  \<comment> \<open>\<open>sep.join(xs)\<close>\<close>
  "py_join sep xs = (case xs of [] \<Rightarrow> [] | y # ys \<Rightarrow> y @ concat (map (\<lambda>z. sep @ z) ys))"

subsection \<open>Exceptions\<close>

text \<open>
  The classes the two scripts name in an \<open>except\<close> clause, and one for every other
  subclass of \<open>Exception\<close>. \<open>exn_str\<close> is \<open>str(e)\<close>.
\<close>

datatype exn_class = JSONDecodeError | AttributeError | TypeError | OSError | OtherError

datatype pyexn = Exn (exn_class: exn_class) (exn_str: ustr)

subsection \<open>Dictionaries and JSON values\<close>

text \<open>
  A \<open>dict\<close> keeps its keys in insertion order and assigning to a key it has keeps the
  key's place: an association list with distinct keys.
\<close>

fun dict_get :: "(ustr \<times> 'v) list \<Rightarrow> ustr \<Rightarrow> 'v option" where
  "dict_get [] k = None"
| "dict_get ((k', v) # d) k = (if k' = k then Some v else dict_get d k)"

fun dict_set :: "(ustr \<times> 'v) list \<Rightarrow> ustr \<Rightarrow> 'v \<Rightarrow> (ustr \<times> 'v) list" where
  "dict_set [] k v = [(k, v)]"
| "dict_set ((k', v') # d) k v = (if k' = k then (k, v) # d else (k', v') # dict_set d k v)"

definition dict_keys :: "(ustr \<times> 'v) list \<Rightarrow> ustr list" where
  "dict_keys d = map fst d"

text \<open>
  What \<open>json.loads\<close> returns and \<open>json.dumps\<close> takes. \<open>JNull\<close> is Python's \<open>None\<close>; a
  float is carried by its \<open>repr\<close>.
\<close>

datatype json =
    JNull
  | JBool bool
  | JInt int
  | JFloat ustr
  | JStr ustr
  | JList "json list"
  | JDict "(ustr \<times> json) list"

section \<open>Regular expressions\<close>

text \<open>
  The part of \<open>re\<close> the two patterns of \<open>extract_json_from_response\<close> use, as a
  backtracking matcher: a pattern is a sequence of items tried left to right, a greedy
  item tries its longest match first and a lazy one its shortest.
\<close>

datatype item =
    Lit ustr                 \<comment> \<open>the characters themselves\<close>
  | Opt ustr                 \<comment> \<open>\<open>(?:...)?\<close> around literal characters\<close>
  | Star "nat \<Rightarrow> bool"       \<comment> \<open>\<open>c*\<close> for a character class\<close>
  | LazyStar "nat \<Rightarrow> bool"   \<comment> \<open>\<open>c*?\<close>\<close>
  | GOpen                    \<comment> \<open>\<open>(\<close> of group 1\<close>
  | GClose                   \<comment> \<open>\<open>)\<close> of group 1\<close>

record rmatch =
  m_start :: nat
  m_end :: nat
  g_start :: nat
  g_end :: nat

text \<open>
  \<open>match_here items s pos gs ge\<close>: the items against the text \<open>s\<close> that starts at
  position \<open>pos\<close>; the result is the end of the match and the span of group 1.
\<close>

fun match_here :: "item list \<Rightarrow> ustr \<Rightarrow> nat \<Rightarrow> nat \<Rightarrow> nat \<Rightarrow> (nat \<times> nat \<times> nat) option" where
  "match_here [] s pos gs ge = Some (pos, gs, ge)"
| "match_here (Lit l # its) s pos gs ge =
     (if prefix l s then match_here its (drop (length l) s) (pos + length l) gs ge else None)"
| "match_here (Opt l # its) s pos gs ge =
     (if prefix l s then
        (case match_here its (drop (length l) s) (pos + length l) gs ge of
           Some r \<Rightarrow> Some r
         | None \<Rightarrow> match_here its s pos gs ge)
      else match_here its s pos gs ge)"
| "match_here (Star c # its) [] pos gs ge = match_here its [] pos gs ge"
| "match_here (Star c # its) (x # xs) pos gs ge =
     (if c x then
        (case match_here (Star c # its) xs (pos + 1) gs ge of
           Some r \<Rightarrow> Some r
         | None \<Rightarrow> match_here its (x # xs) pos gs ge)
      else match_here its (x # xs) pos gs ge)"
| "match_here (LazyStar c # its) [] pos gs ge = match_here its [] pos gs ge"
| "match_here (LazyStar c # its) (x # xs) pos gs ge =
     (case match_here its (x # xs) pos gs ge of
        Some r \<Rightarrow> Some r
      | None \<Rightarrow> if c x then match_here (LazyStar c # its) xs (pos + 1) gs ge else None)"
| "match_here (GOpen # its) s pos gs ge = match_here its s pos pos ge"
| "match_here (GClose # its) s pos gs ge = match_here its s pos gs pos"

text \<open>\<open>re.search\<close>: the match at the leftmost position that has one.\<close>

fun search_from :: "item list \<Rightarrow> ustr \<Rightarrow> nat \<Rightarrow> rmatch option" where
  "search_from its [] pos =
     (case match_here its [] pos 0 0 of
        Some (e, gs, ge) \<Rightarrow> Some \<lparr>m_start = pos, m_end = e, g_start = gs, g_end = ge\<rparr>
      | None \<Rightarrow> None)"
| "search_from its (x # xs) pos =
     (case match_here its (x # xs) pos 0 0 of
        Some (e, gs, ge) \<Rightarrow> Some \<lparr>m_start = pos, m_end = e, g_start = gs, g_end = ge\<rparr>
      | None \<Rightarrow> search_from its xs (pos + 1))"

definition re_search :: "item list \<Rightarrow> ustr \<Rightarrow> rmatch option" where
  "re_search its text = search_from its text 0"

definition slice :: "ustr \<Rightarrow> nat \<Rightarrow> nat \<Rightarrow> ustr" where
  \<comment> \<open>\<open>s[i:j]\<close> for \<open>0 \<le> i\<close>, \<open>0 \<le> j\<close>\<close>
  "slice s i j = take (j - i) (drop i s)"

definition group0 :: "ustr \<Rightarrow> rmatch \<Rightarrow> ustr" where
  "group0 text m = slice text (m_start m) (m_end m)"

definition group1 :: "ustr \<Rightarrow> rmatch \<Rightarrow> ustr" where
  "group1 text m = slice text (g_start m) (g_end m)"

definition any_char :: "nat \<Rightarrow> bool" where
  \<comment> \<open>\<open>[\s\S]\<close>\<close>
  "any_char c \<longleftrightarrow> is_space c \<or> \<not> is_space c"

definition fence :: ustr where
  "fence = [96, 96, 96]"

definition fence_re :: "item list" where
  \<comment> \<open>three backquotes, \<open>(?:json)?\s*([\s\S]*?)\s*\<close>, three backquotes\<close>
  "fence_re = [Lit fence, Opt (U ''json''), Star is_space, GOpen, LazyStar any_char, GClose,
               Star is_space, Lit fence]"

definition brace_re :: "item list" where
  \<comment> \<open>\<open>\{[\s\S]*\}\<close>\<close>
  "brace_re = [Lit [123], Star any_char, Lit [125]]"

section \<open>The Bill Extractor: parsing a response\<close>

text \<open>
  \<open>json.loads\<close> is a parameter: \<open>Inr v\<close> is the value it returns, \<open>Inl e\<close> the exception
  it raises. \<open>extract_json_from_response\<close> passes \<open>JSONDecodeError\<close> by and lets every
  other exception out. Its own \<open>return None\<close> is \<open>Inr JNull\<close>.
\<close>

definition try_loads :: "(ustr \<Rightarrow> pyexn + json) \<Rightarrow> ustr \<Rightarrow> (pyexn + json) \<Rightarrow> pyexn + json" where
  \<comment> \<open>\<open>try: return json.loads(s)\<close>, \<open>except json.JSONDecodeError: pass\<close>, then \<open>rest\<close>\<close>
  "try_loads loads s rest =
     (case loads s of
        Inr v \<Rightarrow> Inr v
      | Inl e \<Rightarrow> if exn_class e = JSONDecodeError then rest else Inl e)"

definition extract_json_from_response :: "(ustr \<Rightarrow> pyexn + json) \<Rightarrow> ustr \<Rightarrow> pyexn + json" where
  "extract_json_from_response loads text =
     (let second =
        (case re_search brace_re text of
           Some m \<Rightarrow> try_loads loads (group0 text m) (Inr JNull)
         | None \<Rightarrow> Inr JNull)
      in case re_search fence_re text of
           Some m \<Rightarrow> try_loads loads (py_strip (group1 text m)) second
         | None \<Rightarrow> second)"

subsection \<open>The parse in words\<close>

text \<open>
  What \<open>extract_json_from_response\<close> does, said without regular expressions, to compare
  with the function above.
  \<^item> The fenced block: at the first place where three backquotes stand and three
    backquotes follow later, the text after them (and after \<open>json\<close>, if that comes
    next) up to the next three backquotes.
  \<^item> The braces: the text from the first \<open>{\<close> through the last \<open>}\<close>, if a \<open>}\<close> follows the
    first \<open>{\<close>.
  \<^item> The fenced block, stripped, is parsed first; where there is none or the parse raises
    \<open>JSONDecodeError\<close>, the braces are parsed; where there are none or that parse raises
    \<open>JSONDecodeError\<close>, the result is \<open>None\<close>.
\<close>

fun upto_fence :: "ustr \<Rightarrow> ustr option" where
  "upto_fence [] = None"
| "upto_fence (x # xs) =
     (if prefix fence (x # xs) then Some [] else map_option ((#) x) (upto_fence xs))"

definition skip_json :: "ustr \<Rightarrow> ustr" where
  "skip_json r = (if prefix (U ''json'') r then drop 4 r else r)"

definition json_len :: "ustr \<Rightarrow> nat" where
  \<comment> \<open>how many characters \<open>(?:json)?\<close> takes\<close>
  "json_len r = (if prefix (U ''json'') r then 4 else 0)"

fun spec_fenced :: "ustr \<Rightarrow> ustr option" where
  "spec_fenced [] = None"
| "spec_fenced (x # xs) =
     (if prefix fence (x # xs) then
        (case upto_fence (skip_json (drop 3 (x # xs))) of
           Some body \<Rightarrow> Some body
         | None \<Rightarrow> spec_fenced xs)
      else spec_fenced xs)"

fun through_last :: "nat \<Rightarrow> ustr \<Rightarrow> ustr" where
  "through_last c [] = []"
| "through_last c (x # xs) =
     (if c \<in> set xs then x # through_last c xs else if x = c then [x] else [])"

fun spec_braced :: "ustr \<Rightarrow> ustr option" where
  "spec_braced [] = None"
| "spec_braced (x # xs) =
     (if x = 123 then (if 125 \<in> set xs then Some (x # through_last 125 xs) else None)
      else spec_braced xs)"

definition spec_extract :: "(ustr \<Rightarrow> pyexn + json) \<Rightarrow> ustr \<Rightarrow> pyexn + json" where
  "spec_extract loads text =
     (let second =
        (case spec_braced text of
           Some s \<Rightarrow> try_loads loads s (Inr JNull)
         | None \<Rightarrow> Inr JNull)
      in case spec_fenced text of
           Some body \<Rightarrow> try_loads loads (py_strip body) second
         | None \<Rightarrow> second)"

section \<open>The Bill Extractor: one image\<close>

type_synonym bytes = "nat list"

text \<open>
  What is sent as the image: the object \<open>genai.types.Part.from_bytes\<close> builds from the
  bytes and the MIME type, or the dictionary
  \<open>{"inline_data": {"mime_type": ..., "data": ...}}\<close> with the base64 text.
\<close>

datatype part = Part_object bytes ustr | Inline_data ustr ustr

text \<open>
  The response of \<open>model.generate_content\<close>: an object that is false in a condition
  (\<open>not response\<close>), or one whose \<open>text\<close> property raises, is \<open>None\<close>, or is a string.
\<close>

datatype response = Falsy_response | Response "pyexn + ustr option"

text \<open>
  The libraries the extractor calls, as parameters: Pillow (\<open>Image.open\<close>, \<open>img.mode\<close>,
  \<open>img.convert("RGB")\<close>, \<open>img.save(buf, format="PNG")\<close>), \<open>Part.from_bytes\<close> of the API
  client, \<open>base64.b64encode\<close> and \<open>json.loads\<close>. \<open>Inl\<close> is the exception a call raises.

  A model object is its method \<open>generate_content\<close>, called with the prompt (a constant)
  and the image. Its answer may change from call to call: the first argument is the
  number of calls made before.
\<close>

type_synonym model = "nat \<Rightarrow> part \<Rightarrow> pyexn + response"

record 'img lib =
  pil_open :: "ustr \<Rightarrow> pyexn + 'img"
  pil_mode :: "'img \<Rightarrow> ustr"
  pil_convert_rgb :: "'img \<Rightarrow> pyexn + 'img"
  pil_save_png :: "'img \<Rightarrow> pyexn + bytes"
  part_from_bytes :: "bytes \<Rightarrow> ustr \<Rightarrow> pyexn + part"
  b64encode :: "bytes \<Rightarrow> ustr"
  json_loads :: "ustr \<Rightarrow> pyexn + json"

definition load_image_as_png_bytes :: "'img lib \<Rightarrow> ustr \<Rightarrow> pyexn + bytes" where
  "load_image_as_png_bytes L path =
     (case pil_open L path of
        Inl e \<Rightarrow> Inl e
      | Inr img \<Rightarrow>
          (case (if pil_mode L img = U ''RGBA'' \<or> pil_mode L img = U ''P''
                 then pil_convert_rgb L img else Inr img) of
             Inl e \<Rightarrow> Inl e
           | Inr img' \<Rightarrow> pil_save_png L img'))"

definition k_file :: ustr where "k_file = U ''_file''"
definition k_raw :: ustr where "k_raw = U ''_raw''"
definition k_error :: ustr where "k_error = U ''_error''"

definition EMPTY_RESPONSE :: ustr where
  \<comment> \<open>the error tag of an empty response (four code points)\<close>
  "EMPTY_RESPONSE = [31354, 12398, 24540, 31572]"

definition PARSE_FAILED :: ustr where
  \<comment> \<open>the error tag of a response without JSON: \<open>JSON\<close>, a space and four code points\<close>
  "PARSE_FAILED = U ''JSON '' @ [35299, 26512, 22833, 25943]"

text \<open>\<open>out[key] = v\<close>: only a \<open>dict\<close> takes a string key.\<close>

fun set_item :: "json \<Rightarrow> ustr \<Rightarrow> json \<Rightarrow> pyexn + json" where
  "set_item (JDict d) k v = Inr (JDict (dict_set d k v))"
| "set_item (JList xs) k v = Inl (Exn TypeError (U ''list indices must be integers or slices, not str''))"
| "set_item (JStr s) k v = Inl (Exn TypeError (U [CHR 0x27] @ U ''str'' @ U [CHR 0x27] @ U '' object does not support item assignment''))"
| "set_item (JInt i) k v = Inl (Exn TypeError (U [CHR 0x27] @ U ''int'' @ U [CHR 0x27] @ U '' object does not support item assignment''))"
| "set_item (JFloat f) k v = Inl (Exn TypeError (U [CHR 0x27] @ U ''float'' @ U [CHR 0x27] @ U '' object does not support item assignment''))"
| "set_item (JBool b) k v = Inl (Exn TypeError (U [CHR 0x27] @ U ''bool'' @ U [CHR 0x27] @ U '' object does not support item assignment''))"
| "set_item JNull k v = Inl (Exn TypeError (U [CHR 0x27] @ U ''NoneType'' @ U [CHR 0x27] @ U '' object does not support item assignment''))"

definition empty_record :: "ustr \<Rightarrow> json" where
  "empty_record name = JDict [(k_file, JStr name), (k_error, JStr EMPTY_RESPONSE)]"

definition parse_failed_record :: "ustr \<Rightarrow> ustr \<Rightarrow> json" where
  "parse_failed_record name raw =
     JDict [(k_file, JStr name), (k_raw, JStr (take 200 raw)), (k_error, JStr PARSE_FAILED)]"

text \<open>
  The lines of \<open>extract_from_image_path\<close> after the call of the API: from the response
  to the record.
\<close>

definition record_of_response :: "'img lib \<Rightarrow> ustr \<Rightarrow> response \<Rightarrow> pyexn + json" where
  "record_of_response L name resp =
     (case resp of
        Falsy_response \<Rightarrow> Inr (empty_record name)
      | Response (Inl e) \<Rightarrow> Inl e
      | Response (Inr None) \<Rightarrow> Inr (empty_record name)
      | Response (Inr (Some t)) \<Rightarrow>
          if t = [] then Inr (empty_record name)
          else
            (let raw = py_strip t in
             case extract_json_from_response (json_loads L) raw of
               Inl e \<Rightarrow> Inl e
             | Inr out \<Rightarrow>
                 if out = JNull then Inr (parse_failed_record name raw)
                 else set_item out k_file (JStr name)))"

text \<open>
  \<open>extract_from_image_path\<close>, for the image of name \<open>name\<close> (\<open>path.name\<close>) after \<open>n\<close>
  calls of the API: the record or the exception raised, and the number of calls after.
\<close>

definition make_image_part :: "'img lib \<Rightarrow> bytes \<Rightarrow> pyexn + part" where
  \<comment> \<open>\<open>try: Part.from_bytes(...)\<close>, \<open>except (AttributeError, TypeError):\<close> the dictionary\<close>
  "make_image_part L png_bytes =
     (case part_from_bytes L png_bytes (U ''image/png'') of
        Inr p \<Rightarrow> Inr p
      | Inl e \<Rightarrow>
          if exn_class e = AttributeError \<or> exn_class e = TypeError
          then Inr (Inline_data (U ''image/png'') (b64encode L png_bytes))
          else Inl e)"

definition extract_from_image_path :: "'img lib \<Rightarrow> model \<Rightarrow> nat \<Rightarrow> ustr \<Rightarrow> (pyexn + json) \<times> nat" where
  "extract_from_image_path L model n name =
     (case load_image_as_png_bytes L name of
        Inl e \<Rightarrow> (Inl e, n)
      | Inr png_bytes \<Rightarrow>
          (case make_image_part L png_bytes of
             Inl e \<Rightarrow> (Inl e, n)
           | Inr image_part \<Rightarrow>
               (case model n image_part of
                  Inl e \<Rightarrow> (Inl e, n + 1)
                | Inr resp \<Rightarrow> (record_of_response L name resp, n + 1))))"

text \<open>
  One turn of the loop of \<open>main\<close>: the row, or on an exception the record
  \<open>{"_file": path.name, "_error": str(e)}\<close>.
\<close>

definition exception_record :: "ustr \<Rightarrow> pyexn \<Rightarrow> json" where
  "exception_record name e = JDict [(k_file, JStr name), (k_error, JStr (exn_str e))]"

definition process_image :: "'img lib \<Rightarrow> model \<Rightarrow> nat \<Rightarrow> ustr \<Rightarrow> json \<times> nat" where
  "process_image L model n name =
     (case extract_from_image_path L model n name of
        (Inr row, n') \<Rightarrow> (row, n')
      | (Inl e, n') \<Rightarrow> (exception_record name e, n'))"

text \<open>The loop: the rows in the order of the paths, and the number of calls after.\<close>

fun process_images :: "'img lib \<Rightarrow> model \<Rightarrow> nat \<Rightarrow> ustr list \<Rightarrow> json list \<times> nat" where
  "process_images L model n [] = ([], n)"
| "process_images L model n (name # names) =
     (case process_image L model n name of
        (row, n') \<Rightarrow>
          (case process_images L model n' names of (rows, n'') \<Rightarrow> (row # rows, n'')))"

section \<open>File names\<close>

text \<open>
  \<open>PurePath.suffix\<close> and \<open>PurePath.stem\<close> of a file name (pathlib up to Python 3.13): with
  \<open>i\<close> the index of the last dot, the suffix is \<open>name[i:]\<close> and the stem \<open>name[:i]\<close> when
  \<open>0 < i < len(name) - 1\<close>, and otherwise the suffix is empty and the stem is the name.
\<close>

fun rfind :: "nat \<Rightarrow> ustr \<Rightarrow> nat option" where
  "rfind c [] = None"
| "rfind c (x # xs) =
     (case rfind c xs of
        Some i \<Rightarrow> Some (Suc i)
      | None \<Rightarrow> if x = c then Some 0 else None)"

definition py_suffix :: "ustr \<Rightarrow> ustr" where
  "py_suffix name =
     (case rfind 46 name of
        Some i \<Rightarrow> if 0 < i \<and> i + 1 < length name then drop i name else []
      | None \<Rightarrow> [])"

definition py_stem :: "ustr \<Rightarrow> ustr" where
  "py_stem name =
     (case rfind 46 name of
        Some i \<Rightarrow> if 0 < i \<and> i + 1 < length name then take i name else name
      | None \<Rightarrow> name)"

text \<open>\<open>str(n)\<close> for \<open>n \<ge> 0\<close>, as an f-string formats a counter.\<close>

function str_nat :: "nat \<Rightarrow> ustr" where
  "str_nat n = (if n < 10 then [48 + n] else str_nat (n div 10) @ [48 + n mod 10])"
  by pat_completeness auto
termination
  by (relation "measure (\<lambda>n. n)") auto

declare str_nat.simps [simp del]

section \<open>The Bill Extractor: main\<close>

definition IMAGE_EXTENSIONS :: "ustr set" where
  "IMAGE_EXTENSIONS = {U ''.png'', U ''.jpg'', U ''.jpeg'', U ''.heic'', U ''.heif''}"

text \<open>The arguments after \<open>parse_args\<close>; \<open>a_api_key\<close> is the flag, else the environment variable.\<close>

record args =
  a_folder :: ustr
  a_api_key :: "ustr option"
  a_model :: ustr
  a_list_models :: bool
  a_output :: "ustr option"

record model_info =
  mi_name :: ustr
  mi_methods :: "ustr list"

text \<open>
  What \<open>main\<close> reads from its surroundings.
  \<^item> \<open>genai_present\<close>: the import of the API client succeeded (\<open>genai is not None\<close>).
  \<^item> \<open>list_models\<close>: \<open>genai.list_models()\<close> raises, or yields models and then may raise.
  \<^item> \<open>resolved\<close>: \<open>Path(args.folder).resolve()\<close> as text; \<open>is_dir\<close>: \<open>folder.is_dir()\<close>;
    \<open>iterdir\<close>: the entries of the folder, each the name and \<open>is_file()\<close>.
  \<^item> \<open>ext_order\<close>: the order in which the set \<open>IMAGE_EXTENSIONS\<close> is iterated.
  \<^item> \<open>generative_model\<close>: \<open>genai.GenerativeModel(name)\<close>, the model or the exception.
  \<^item> \<open>json_dumps\<close>: \<open>json.dumps\<close> with its arguments \<open>ensure_ascii\<close> and \<open>indent\<close>.
  \<^item> \<open>write_text\<close>: \<open>Path(p).write_text(s, encoding="utf-8")\<close>, the exception if it raises.
\<close>

record 'img env =
  libs :: "'img lib"
  genai_present :: bool
  list_models :: "pyexn + (model_info list \<times> pyexn option)"
  resolved :: ustr
  is_dir :: bool
  iterdir :: "(ustr \<times> bool) list"
  ext_order :: "ustr list"
  generative_model :: "ustr \<Rightarrow> pyexn + model"
  json_dumps :: "bool \<Rightarrow> nat \<Rightarrow> json \<Rightarrow> ustr"
  write_text :: "ustr \<Rightarrow> ustr \<Rightarrow> pyexn option"

text \<open>
  What a run leaves: the value \<open>main\<close> returns (\<open>Inl\<close>: an exception leaves \<open>main\<close>), the
  texts printed to standard output and to standard error, the files written and the
  number of calls of the API.
\<close>

record outcome =
  o_status :: "pyexn + int"
  o_stdout :: "ustr list"
  o_stderr :: "ustr list"
  o_written :: "(ustr \<times> ustr) list"
  o_calls :: nat

definition fatal :: "ustr list \<Rightarrow> outcome" where
  \<comment> \<open>the messages to standard error, then \<open>return 1\<close>\<close>
  "fatal msgs = \<lparr>o_status = Inr 1, o_stdout = [], o_stderr = msgs, o_written = [], o_calls = 0\<rparr>"

definition ERR :: ustr where
  \<comment> \<open>the word every diagnostic begins with, a colon and a space\<close>
  "ERR = [12456, 12521, 12540, 58, 32]"

definition MSG_NO_API_KEY :: ustr where
  "MSG_NO_API_KEY = ERR @ U ''API '' @ [12461, 12540, 12364, 12354, 12426, 12414, 12379, 12435, 12290]
     @ U ''--api-key'' @ [32, 12434, 25351, 23450, 12377, 12427, 12363, 32] @ U ''GEMINI_API_KEY''
     @ [32, 12434, 35373, 23450, 12375, 12390, 12367, 12384, 12373, 12356, 12290]"

definition MSG_NO_LIBRARY :: ustr where
  "MSG_NO_LIBRARY = ERR @ U ''google-generativeai''
     @ [32, 12364, 12452, 12531, 12473, 12488, 12540, 12523, 12373, 12428, 12390, 12356, 12414,
        12379, 12435, 12290]
     @ U ''pip install google-generativeai''"

definition MSG_LIST_FAILED :: "ustr \<Rightarrow> ustr" where
  "MSG_LIST_FAILED e = ERR
     @ [12514, 12487, 12523, 19968, 35239, 12398, 21462, 24471, 12395, 22833, 25943, 12375, 12414,
        12375, 12383, 58, 32] @ e"

definition MSG_NO_FOLDER :: "ustr \<Rightarrow> ustr" where
  "MSG_NO_FOLDER folder = ERR
     @ [12501, 12457, 12523, 12480, 12364, 35211, 12388, 12363, 12426, 12414, 12379, 12435, 58, 32]
     @ folder"

definition MSG_NO_IMAGES :: "ustr list \<Rightarrow> ustr \<Rightarrow> ustr" where
  "MSG_NO_IMAGES exts folder = ERR
     @ [30011, 20687, 12501, 12449, 12452, 12523, 65288] @ py_join (U '', '') exts
     @ [65289, 12364, 12354, 12426, 12414, 12379, 12435, 58, 32] @ folder"

definition MSG_NO_MODEL :: "ustr \<Rightarrow> ustr \<Rightarrow> ustr" where
  "MSG_NO_MODEL model_name e = ERR
     @ [12514, 12487, 12523, 32, 39] @ model_name
     @ [39, 32, 12364, 35211, 12388, 12363, 12426, 12414, 12379, 12435, 58, 32] @ e"

definition MSG_HINT :: ustr where
  "MSG_HINT = [12498, 12531, 12488, 58, 32] @ U ''--list-models''
     @ [32, 12391, 21033, 29992, 21487, 33021, 12394, 12514, 12487, 12523, 12434, 30906, 35469,
        12391, 12365, 12414, 12377]"

definition MSG_MODELS_HEADER :: ustr where
  "MSG_MODELS_HEADER = [21033, 29992, 21487, 33021, 12394, 32] @ U ''Gemini''
     @ [32, 12514, 12487, 12523, 58, 10]"

definition MSG_SAVED :: "ustr \<Rightarrow> ustr" where
  "MSG_SAVED p = [10, 8594, 32, 20445, 23384, 12375, 12414, 12375, 12383, 58, 32] @ p"

definition is_image :: "ustr \<times> bool \<Rightarrow> bool" where
  \<comment> \<open>\<open>p.is_file() and p.suffix.lower() in IMAGE_EXTENSIONS\<close>\<close>
  "is_image p \<longleftrightarrow> snd p \<and> py_lower (py_suffix (fst p)) \<in> IMAGE_EXTENSIONS"

definition image_paths :: "(ustr \<times> bool) list \<Rightarrow> ustr list" where
  \<comment> \<open>the names of the matching entries, after \<open>image_paths.sort(key=lambda p: p.name)\<close>\<close>
  "image_paths entries = sort_key (\<lambda>name. name) (map fst (filter is_image entries))"

definition strip_models_prefix :: "ustr \<Rightarrow> ustr" where
  "strip_models_prefix m = (if prefix (U ''models/'') m then drop 7 m else m)"

definition list_models_mode :: "'img env \<Rightarrow> outcome" where
  "list_models_mode E =
     (let names = (\<lambda>ms. map (\<lambda>m. U ''  '' @ mi_name m)
                           (filter (\<lambda>m. U ''generateContent'' \<in> set (mi_methods m)) ms))
      in case list_models E of
           Inl e \<Rightarrow> fatal [MSG_LIST_FAILED (exn_str e)]
         | Inr (ms, None) \<Rightarrow>
             \<lparr>o_status = Inr 0, o_stdout = MSG_MODELS_HEADER # names ms, o_stderr = [], o_written = [],
              o_calls = 0\<rparr>
         | Inr (ms, Some e) \<Rightarrow>
             \<lparr>o_status = Inr 1, o_stdout = MSG_MODELS_HEADER # names ms,
              o_stderr = [MSG_LIST_FAILED (exn_str e)], o_written = [], o_calls = 0\<rparr>)"

definition report :: "args \<Rightarrow> 'img env \<Rightarrow> json list \<Rightarrow> nat \<Rightarrow> outcome" where
  \<comment> \<open>from \<open>json.dumps\<close> to \<open>return 0\<close>\<close>
  "report A E results n =
     (let json_str = json_dumps E False 2 (JList results) in
      case a_output A of
        None \<Rightarrow> \<lparr>o_status = Inr 0, o_stdout = [json_str], o_stderr = [], o_written = [], o_calls = n\<rparr>
      | Some p \<Rightarrow>
          if p = [] then
            \<lparr>o_status = Inr 0, o_stdout = [json_str], o_stderr = [], o_written = [], o_calls = n\<rparr>
          else
            (case write_text E p json_str of
               Some e \<Rightarrow>
                 \<lparr>o_status = Inl e, o_stdout = [json_str], o_stderr = [], o_written = [], o_calls = n\<rparr>
             | None \<Rightarrow>
                 \<lparr>o_status = Inr 0, o_stdout = [json_str], o_stderr = [MSG_SAVED p],
                  o_written = [(p, json_str)], o_calls = n\<rparr>))"

definition main_extractor :: "args \<Rightarrow> 'img env \<Rightarrow> outcome" where
  "main_extractor A E =
     (if a_api_key A = None \<or> a_api_key A = Some [] then fatal [MSG_NO_API_KEY]
      else if \<not> genai_present E then fatal [MSG_NO_LIBRARY]
      else if a_list_models A then list_models_mode E
      else if \<not> is_dir E then fatal [MSG_NO_FOLDER (resolved E)]
      else if image_paths (iterdir E) = [] then
        fatal [MSG_NO_IMAGES (ext_order E) (resolved E)]
      else
        (let model_name = strip_models_prefix (a_model A) in
         case generative_model E model_name of
           Inl e \<Rightarrow> fatal [MSG_NO_MODEL model_name (exn_str e), MSG_HINT]
         | Inr model \<Rightarrow>
             (case process_images (libs E) model 0 (image_paths (iterdir E)) of
                (results, n) \<Rightarrow> report A E results n)))"

definition reaches_loop :: "args \<Rightarrow> 'img env \<Rightarrow> model \<Rightarrow> bool" where
  \<comment> \<open>no check of \<open>main\<close> before the loop returns, and \<open>model\<close> is the model made\<close>
  "reaches_loop A E model \<longleftrightarrow>
     a_api_key A \<noteq> None \<and> a_api_key A \<noteq> Some [] \<and> genai_present E \<and> \<not> a_list_models A
     \<and> is_dir E \<and> image_paths (iterdir E) \<noteq> []
     \<and> generative_model E (strip_models_prefix (a_model A)) = Inr model"

definition file_of :: "json \<Rightarrow> json option" where
  \<comment> \<open>what a record holds under \<open>_file\<close>\<close>
  "file_of row = (case row of JDict d \<Rightarrow> dict_get d k_file | _ \<Rightarrow> None)"

section \<open>The Desktop Archiver\<close>

definition IMAGE_EXTENSIONS_archiver :: "ustr set" where
  \<comment> \<open>\<open>IMAGE_EXTENSIONS\<close> of the archiver\<close>
  "IMAGE_EXTENSIONS_archiver = {U ''.png'', U ''.jpg'', U ''.jpeg''}"

text \<open>
  What a path of the file system leads to: a regular file and its content, a directory
  and its entries, or something else. Only the first is a file for \<open>is_file()\<close>.
\<close>

datatype 'c node = File 'c | Dir "(ustr \<times> 'c node) list" | Special

fun is_file :: "'c node \<Rightarrow> bool" where
  "is_file (File c) = True"
| "is_file (Dir es) = False"
| "is_file Special = False"

text \<open>
  The loop \<open>while dest.exists()\<close>: \<open>ex\<close> tells which names exist in the archive folder,
  \<open>sfx\<close> is the suffix, \<open>dest\<close> the name tried and \<open>n\<close> the counter. Where the loop does not end the value
  is \<open>None\<close>.
\<close>

definition numbered :: "ustr \<Rightarrow> ustr \<Rightarrow> nat \<Rightarrow> ustr" where
  \<comment> \<open>the f-string \<open>{stem}_{n}{suffix}\<close>\<close>
  "numbered stem sfx n = stem @ U ''_'' @ str_nat n @ sfx"

partial_function (option) next_free :: "(ustr \<Rightarrow> bool) \<Rightarrow> ustr \<Rightarrow> ustr \<Rightarrow> ustr \<Rightarrow> nat \<Rightarrow> ustr option" where
  "next_free ex stem sfx dest n =
     (if ex dest then next_free ex stem sfx (numbered stem sfx n) (n + 1)
      else Some dest)"

declare next_free.simps [code]

definition choose_dest :: "(ustr \<Rightarrow> bool) \<Rightarrow> ustr \<Rightarrow> ustr option" where
  \<comment> \<open>the name \<open>dest\<close> has when \<open>shutil.move\<close> is called\<close>
  "choose_dest ex name =
     (if ex name then next_free ex (py_stem name) (py_suffix name) name 1 else Some name)"

text \<open>
  What a run of the archiver meets.
  \<^item> \<open>desktop_path\<close>: \<open>Path.home() / "Desktop"\<close> as text; \<open>desktop\<close>: what is there, if anything.
  \<^item> \<open>today\<close>: the date \<open>strftime('%Y-%m-%d')\<close> gives.
  \<^item> \<open>mkdir_error\<close>: the exception of the two \<open>mkdir\<close> calls, if one raises.
  \<^item> \<open>archive\<close>: the entries of the dated archive folder once it is made.
  \<^item> \<open>move_error\<close>: the exception \<open>shutil.move(src, dest)\<close> raises, if it does; a move that
    raises moves nothing.
\<close>

record 'c world =
  desktop_path :: ustr
  desktop :: "'c node option"
  today :: ustr
  mkdir_error :: "pyexn option"
  archive :: "(ustr \<times> 'c node) list"
  move_error :: "ustr \<Rightarrow> ustr \<Rightarrow> pyexn option"

record 'c state =
  s_desktop :: "(ustr \<times> 'c node) list"
  s_archive :: "(ustr \<times> 'c node) list"
  moved_count :: nat
  printed :: "ustr list"

definition get_archive_folder_name :: "'c world \<Rightarrow> ustr" where
  "get_archive_folder_name W = U ''Archive_'' @ today W"


definition MSG_MOVED :: "ustr \<Rightarrow> ustr \<Rightarrow> ustr" where
  "MSG_MOVED name archive_name =
     [31227, 21205, 58, 32] @ name @ [32, 8594, 32] @ U ''Inspiration_Vault/'' @ archive_name
     @ U ''/''"

definition MSG_FAILED :: "ustr \<Rightarrow> ustr \<Rightarrow> ustr" where
  "MSG_FAILED name e = [22833, 25943, 58, 32] @ name @ U '' - '' @ e"



text \<open>
  One turn of the loop over \<open>desktop.iterdir()\<close>, for the entry of name \<open>name\<close>:
  \<open>is_file()\<close> and \<open>exists()\<close> read the file system as it is at that turn. The result is
  the exception that leaves the loop, if there is one, and the state after the turn.
\<close>

definition visit :: "'c world \<Rightarrow> ustr \<Rightarrow> 'c state \<Rightarrow> (pyexn option \<times> 'c state) option" where
  "visit W name st =
     (case map_of (s_desktop st) name of
        None \<Rightarrow> Some (None, st)
      | Some node \<Rightarrow>
          if \<not> is_file node then Some (None, st)
          else if py_lower (py_suffix name) \<in> IMAGE_EXTENSIONS_archiver then
            (case choose_dest (\<lambda>d. d \<in> set (map fst (s_archive st))) name of
               None \<Rightarrow> None
             | Some dest \<Rightarrow>
                 (case move_error W name dest of
                    None \<Rightarrow>
                      Some (None,
                            \<lparr>s_desktop = filter (\<lambda>e. fst e \<noteq> name) (s_desktop st),
                             s_archive = s_archive st @ [(dest, node)],
                             moved_count = moved_count st + 1,
                             printed = printed st
                               @ [MSG_MOVED name (get_archive_folder_name W)]\<rparr>)
                  | Some e \<Rightarrow>
                      if exn_class e = OSError
                      then Some (None, st\<lparr>printed := printed st
                                           @ [MSG_FAILED name (exn_str e)]\<rparr>)
                      else Some (Some e, st)))
          else Some (None, st))"

definition matching :: "ustr \<times> 'c node \<Rightarrow> bool" where
  \<comment> \<open>the entries the loop moves: regular files with an image extension\<close>
  "matching e \<longleftrightarrow> is_file (snd e) \<and> py_lower (py_suffix (fst e)) \<in> IMAGE_EXTENSIONS_archiver"





section \<open>A JSON reader for the examples\<close>

text \<open>
  \<open>json.loads\<close> on the JSON texts made of objects, arrays, strings without escapes,
  integers, \<open>true\<close>, \<open>false\<close> and \<open>null\<close>. On a text that is not JSON it raises
  \<open>JSONDecodeError\<close> as \<open>json.loads\<close> does. It also raises on numbers with a fraction or
  an exponent and on strings with a backslash, which \<open>json.loads\<close> reads: the examples
  use neither. The theorems below hold for every \<open>json.loads\<close>; this reader only
  evaluates their examples.
\<close>

datatype tok =
  TLBrace | TRBrace | TLBrack | TRBrack | TColon | TComma
  | TString ustr | TInt int | TTrue | TFalse | TNull

datatype lmode = LMain | LStr ustr | LNum bool ustr | LWord ustr

definition is_digit :: "nat \<Rightarrow> bool" where
  "is_digit c \<longleftrightarrow> 48 \<le> c \<and> c \<le> 57"

definition is_letter :: "nat \<Rightarrow> bool" where
  "is_letter c \<longleftrightarrow> 97 \<le> c \<and> c \<le> 122"

definition lex_start :: "nat \<Rightarrow> (tok list \<times> lmode) option" where
  \<comment> \<open>a character outside a token: the token it is, or the token it starts\<close>
  "lex_start c =
     (if c = 32 \<or> c = 9 \<or> c = 10 \<or> c = 13 then Some ([], LMain)
      else if c = 123 then Some ([TLBrace], LMain)
      else if c = 125 then Some ([TRBrace], LMain)
      else if c = 91 then Some ([TLBrack], LMain)
      else if c = 93 then Some ([TRBrack], LMain)
      else if c = 58 then Some ([TColon], LMain)
      else if c = 44 then Some ([TComma], LMain)
      else if c = 34 then Some ([], LStr [])
      else if c = 45 then Some ([], LNum True [])
      else if is_digit c then Some ([], LNum False [c])
      else if is_letter c then Some ([], LWord [c])
      else None)"

definition digits_value :: "ustr \<Rightarrow> int" where
  "digits_value ds = foldl (\<lambda>a d. 10 * a + int (d - 48)) 0 ds"

definition lex_num :: "bool \<Rightarrow> ustr \<Rightarrow> tok option" where
  \<comment> \<open>an integer: at least one digit, no zero before another digit\<close>
  "lex_num neg ds =
     (if ds = [] \<or> (length ds > 1 \<and> hd ds = 48) then None
      else Some (TInt (if neg then - digits_value ds else digits_value ds)))"

definition lex_word :: "ustr \<Rightarrow> tok option" where
  "lex_word w =
     (if w = U ''true'' then Some TTrue
      else if w = U ''false'' then Some TFalse
      else if w = U ''null'' then Some TNull
      else None)"

fun lex :: "lmode \<Rightarrow> ustr \<Rightarrow> tok list option" where
  "lex LMain [] = Some []"
| "lex (LStr acc) [] = None"
| "lex (LNum neg ds) [] = map_option (\<lambda>t. [t]) (lex_num neg ds)"
| "lex (LWord w) [] = map_option (\<lambda>t. [t]) (lex_word w)"
| "lex LMain (c # cs) =
     (case lex_start c of
        None \<Rightarrow> None
      | Some (ts, m) \<Rightarrow> map_option (\<lambda>r. ts @ r) (lex m cs))"
| "lex (LStr acc) (c # cs) =
     (if c = 34 then map_option (\<lambda>r. TString acc # r) (lex LMain cs)
      else if c = 92 \<or> c < 32 then None
      else lex (LStr (acc @ [c])) cs)"
| "lex (LNum neg ds) (c # cs) =
     (if is_digit c then lex (LNum neg (ds @ [c])) cs
      else
        (case (lex_num neg ds, lex_start c) of
           (Some t, Some (ts, m)) \<Rightarrow>
             if c = 46 \<or> c = 69 \<or> c = 101 then None
             else map_option (\<lambda>r. t # ts @ r) (lex m cs)
         | _ \<Rightarrow> None))"
| "lex (LWord w) (c # cs) =
     (if is_letter c then lex (LWord (w @ [c])) cs
      else
        (case (lex_word w, lex_start c) of
           (Some t, Some (ts, m)) \<Rightarrow> map_option (\<lambda>r. t # ts @ r) (lex m cs)
         | _ \<Rightarrow> None))"

datatype frame =
    FList "json list"                     \<comment> \<open>an array and its elements so far\<close>
  | FDict "(ustr \<times> json) list"           \<comment> \<open>an object and its members so far\<close>
  | FKey "(ustr \<times> json) list" ustr       \<comment> \<open>an object, and the key whose value comes next\<close>

datatype pstate = PValue | PValueOrEnd | PKeyOrEnd | PKey | PColon | PAfter | PDone json

definition complete :: "json \<Rightarrow> frame list \<Rightarrow> (pstate \<times> frame list) option" where
  \<comment> \<open>a value is read: it is the result, the next element, or the value of the pending key
      (a key read twice keeps its place and takes the later value, as a \<open>dict\<close> does)\<close>
  "complete v stk =
     (case stk of
        [] \<Rightarrow> Some (PDone v, [])
      | FList es # r \<Rightarrow> Some (PAfter, FList (es @ [v]) # r)
      | FKey ms k # r \<Rightarrow> Some (PAfter, FDict (dict_set ms k v) # r)
      | FDict ms # r \<Rightarrow> None)"

definition begin_value :: "tok \<Rightarrow> frame list \<Rightarrow> (pstate \<times> frame list) option" where
  "begin_value t stk =
     (case t of
        TString s \<Rightarrow> complete (JStr s) stk
      | TInt i \<Rightarrow> complete (JInt i) stk
      | TTrue \<Rightarrow> complete (JBool True) stk
      | TFalse \<Rightarrow> complete (JBool False) stk
      | TNull \<Rightarrow> complete JNull stk
      | TLBrack \<Rightarrow> Some (PValueOrEnd, FList [] # stk)
      | TLBrace \<Rightarrow> Some (PKeyOrEnd, FDict [] # stk)
      | _ \<Rightarrow> None)"

definition end_list :: "frame list \<Rightarrow> (pstate \<times> frame list) option" where
  "end_list stk = (case stk of FList es # r \<Rightarrow> complete (JList es) r | _ \<Rightarrow> None)"

definition end_dict :: "frame list \<Rightarrow> (pstate \<times> frame list) option" where
  "end_dict stk = (case stk of FDict ms # r \<Rightarrow> complete (JDict ms) r | _ \<Rightarrow> None)"

definition begin_key :: "tok \<Rightarrow> frame list \<Rightarrow> (pstate \<times> frame list) option" where
  "begin_key t stk =
     (case (t, stk) of
        (TString k, FDict ms # r) \<Rightarrow> Some (PColon, FKey ms k # r)
      | _ \<Rightarrow> None)"

definition parse_step :: "pstate \<Rightarrow> frame list \<Rightarrow> tok \<Rightarrow> (pstate \<times> frame list) option" where
  "parse_step st stk t =
     (case st of
        PValue \<Rightarrow> begin_value t stk
      | PValueOrEnd \<Rightarrow> if t = TRBrack then end_list stk else begin_value t stk
      | PKeyOrEnd \<Rightarrow> if t = TRBrace then end_dict stk else begin_key t stk
      | PKey \<Rightarrow> begin_key t stk
      | PColon \<Rightarrow> if t = TColon then Some (PValue, stk) else None
      | PAfter \<Rightarrow>
          if t = TComma then
            (case stk of
               FList es # r \<Rightarrow> Some (PValue, stk)
             | FDict ms # r \<Rightarrow> Some (PKey, stk)
             | _ \<Rightarrow> None)
          else if t = TRBrack then end_list stk
          else if t = TRBrace then end_dict stk
          else None
      | PDone v \<Rightarrow> None)"

fun parse_toks :: "pstate \<Rightarrow> frame list \<Rightarrow> tok list \<Rightarrow> json option" where
  "parse_toks st stk [] = (case st of PDone v \<Rightarrow> Some v | _ \<Rightarrow> None)"
| "parse_toks st stk (t # ts) =
     (case parse_step st stk t of
        None \<Rightarrow> None
      | Some (st', stk') \<Rightarrow> parse_toks st' stk' ts)"

definition demo_loads :: "ustr \<Rightarrow> pyexn + json" where
  "demo_loads s =
     (case lex LMain s of
        None \<Rightarrow> Inl (Exn JSONDecodeError (U ''not JSON''))
      | Some ts \<Rightarrow>
          (case parse_toks PValue [] ts of
             None \<Rightarrow> Inl (Exn JSONDecodeError (U ''not JSON''))
           | Some v \<Rightarrow> Inr v))"

text \<open>
  Libraries for the examples: every image opens in mode \<open>RGB\<close>; the model
  \<open>demo_model resp\<close> answers every call with the response \<open>resp\<close>.
\<close>

definition demo_model :: "response \<Rightarrow> model" where
  "demo_model resp = (\<lambda>n p. Inr resp)"

definition flaky_model :: "pyexn \<Rightarrow> response \<Rightarrow> model" where
  \<comment> \<open>the first call raises \<open>e\<close>, every later call answers \<open>resp\<close>\<close>
  "flaky_model e resp = (\<lambda>n p. if n = 0 then Inl e else Inr resp)"

definition demo_lib :: "unit lib" where
  "demo_lib =
     \<lparr>pil_open = (\<lambda>p. Inr ()),
      pil_mode = (\<lambda>i. U ''RGB''),
      pil_convert_rgb = (\<lambda>i. Inr i),
      pil_save_png = (\<lambda>i. Inr [137, 80, 78, 71]),
      part_from_bytes = (\<lambda>b m. Inr (Part_object b m)),
      b64encode = (\<lambda>b. U ''iVBORw==''),
      json_loads = demo_loads\<rparr>"



text \<open>
  \<open>json.dumps(v, ensure_ascii=e, indent=k)\<close> for the examples, on values without floats:
  every container item on a line of its own, indented by \<open>k\<close> spaces a level; in a string
  the quote, the backslash and the control characters are escaped, and the characters
  beyond ASCII too when \<open>e\<close> holds (by their code in hexadecimal, a pair of
  surrogates beyond U+FFFF).
\<close>

definition hex_digit :: "nat \<Rightarrow> nat" where
  "hex_digit d = (if d < 10 then 48 + d else 87 + d)"

definition hex4 :: "nat \<Rightarrow> ustr" where
  "hex4 c = [92, 117] @ map hex_digit [c div 4096 mod 16, c div 256 mod 16, c div 16 mod 16, c mod 16]"

definition escape_char :: "bool \<Rightarrow> nat \<Rightarrow> ustr" where
  "escape_char e c =
     (if c = 34 then [92, 34]
      else if c = 92 then [92, 92]
      else if c = 10 then [92, 110]
      else if c = 13 then [92, 114]
      else if c = 9 then [92, 116]
      else if c = 8 then [92, 98]
      else if c = 12 then [92, 102]
      else if c < 32 then hex4 c
      else if e \<and> c > 65535 then
        hex4 (55296 + (c - 65536) div 1024) @ hex4 (56320 + (c - 65536) mod 1024)
      else if e \<and> c > 126 then hex4 c
      else [c])"

definition dumps_str :: "bool \<Rightarrow> ustr \<Rightarrow> ustr" where
  "dumps_str e s = [34] @ concat (map (escape_char e) s) @ [34]"

definition str_int :: "int \<Rightarrow> ustr" where
  "str_int i = (if i < 0 then [45] @ str_nat (nat (- i)) else str_nat (nat i))"

definition newline_indent :: "nat \<Rightarrow> ustr" where
  "newline_indent n = [10] @ replicate n 32"

fun dumps_at :: "bool \<Rightarrow> nat \<Rightarrow> nat \<Rightarrow> json \<Rightarrow> ustr" where
  "dumps_at e k lvl JNull = U ''null''"
| "dumps_at e k lvl (JBool b) = (if b then U ''true'' else U ''false'')"
| "dumps_at e k lvl (JInt i) = str_int i"
| "dumps_at e k lvl (JFloat r) = r"
| "dumps_at e k lvl (JStr s) = dumps_str e s"
| "dumps_at e k lvl (JList xs) =
     (if xs = [] then U ''[]''
      else U ''['' @ newline_indent (k * (lvl + 1))
           @ py_join (U '','' @ newline_indent (k * (lvl + 1))) (map (dumps_at e k (lvl + 1)) xs)
           @ newline_indent (k * lvl) @ U '']'')"
| "dumps_at e k lvl (JDict d) =
     (if d = [] then U ''{}''
      else U ''{'' @ newline_indent (k * (lvl + 1))
           @ py_join (U '','' @ newline_indent (k * (lvl + 1)))
               (map (\<lambda>kv. dumps_str e (fst kv) @ U '': '' @ dumps_at e k (lvl + 1) (snd kv)) d)
           @ newline_indent (k * lvl) @ U ''}'')"

definition demo_dumps :: "bool \<Rightarrow> nat \<Rightarrow> json \<Rightarrow> ustr" where
  "demo_dumps e k v = dumps_at e k 0 v"

text \<open>
  Surroundings for the examples: the folder \<open>/bills\<close> with the entries \<open>entries\<close>, and
  \<open>gm\<close> for \<open>genai.GenerativeModel\<close>.
\<close>

definition demo_env :: "(ustr \<times> bool) list \<Rightarrow> (ustr \<Rightarrow> pyexn + model) \<Rightarrow> unit env" where
  "demo_env entries gm =
     \<lparr>libs = demo_lib,
      genai_present = True,
      list_models = Inr ([], None),
      resolved = U ''/bills'',
      is_dir = True,
      iterdir = entries,
      ext_order = [U ''.jpg'', U ''.heic'', U ''.png'', U ''.heif'', U ''.jpeg''],
      generative_model = gm,
      json_dumps = demo_dumps,
      write_text = (\<lambda>p s. None)\<rparr>"

definition demo_args :: "ustr option \<Rightarrow> ustr option \<Rightarrow> args" where
  "demo_args key output =
     \<lparr>a_folder = U ''bills'', a_api_key = key, a_model = U ''models/gemini-1.5-flash-latest'',
      a_list_models = False, a_output = output\<rparr>"

section \<open>Properties of the Bill Extractor's records\<close>

subsection \<open>Dictionaries\<close>

lemma dict_get_set_same: "dict_get (dict_set d k v) k = Some v"
  by (induction d) auto

lemma dict_keys_set:
  "dict_keys (dict_set d k v) = (if k \<in> set (dict_keys d) then dict_keys d else dict_keys d @ [k])"
  by (induction d) (force simp: dict_keys_def)+

lemma key_consts_distinct: "k_file \<noteq> k_raw" "k_file \<noteq> k_error" "k_raw \<noteq> k_error"
  by (simp_all add: k_file_def k_raw_def k_error_def U_def)

lemma set_item_Inr:
  "set_item out k v = Inr row \<Longrightarrow> \<exists>p. out = JDict p \<and> row = JDict (dict_set p k v)"
  by (cases out) auto

subsection \<open>The three kinds of record\<close>

lemma record_of_response_cases:
  assumes "record_of_response L name resp = Inr row"
  shows "row = empty_record name
       \<or> (\<exists>t. resp = Response (Inr (Some t)) \<and> t \<noteq> []
              \<and> extract_json_from_response (json_loads L) (py_strip t) = Inr JNull
              \<and> row = parse_failed_record name (py_strip t))
       \<or> (\<exists>t p. resp = Response (Inr (Some t)) \<and> t \<noteq> []
              \<and> extract_json_from_response (json_loads L) (py_strip t) = Inr (JDict p)
              \<and> row = JDict (dict_set p k_file (JStr name)))"
  using assms
  by (auto simp: record_of_response_def Let_def
      split: response.splits sum.splits option.splits if_splits dest!: set_item_Inr)

lemma extract_from_image_path_Inr:
  assumes "extract_from_image_path L model n name = (Inr row, n')"
  shows "\<exists>resp. record_of_response L name resp = Inr row"
  using assms
  by (auto simp: extract_from_image_path_def split: sum.splits)

lemma extract_from_image_path_response:
  assumes "extract_from_image_path L model n name = (Inr row, n')"
  shows "\<exists>png part resp. load_image_as_png_bytes L name = Inr png
           \<and> make_image_part L png = Inr part \<and> model n part = Inr resp
           \<and> record_of_response L name resp = Inr row"
  using assms
  by (auto simp: extract_from_image_path_def split: sum.splits)

lemma extract_after_response:
  assumes "load_image_as_png_bytes L name = Inr png" "make_image_part L png = Inr p"
    "model n p = Inr resp"
  shows "extract_from_image_path L model n name = (record_of_response L name resp, n + 1)"
  using assms by (simp add: extract_from_image_path_def)

subsection \<open>Evaluating the examples\<close>

lemmas re_defs = re_search_def fence_re_def brace_re_def fence_def any_char_def is_space_def
  group0_def group1_def slice_def py_strip_def py_lstrip_def py_rstrip_def

lemmas json_defs = demo_loads_def lex_start_def lex_num_def lex_word_def is_digit_def
  is_letter_def digits_value_def parse_step_def begin_value_def begin_key_def end_list_def
  end_dict_def complete_def

lemmas ex_defs = extract_json_from_response_def try_loads_def record_of_response_def
  extract_from_image_path_def load_image_as_png_bytes_def make_image_part_def demo_lib_def demo_model_def
  process_image_def empty_record_def parse_failed_record_def exception_record_def
  k_file_def k_raw_def k_error_def U_def

lemma demo_lib_load: "load_image_as_png_bytes demo_lib name = Inr [137, 80, 78, 71]"
  by (simp add: load_image_as_png_bytes_def demo_lib_def U_def)

lemma demo_lib_part:
  "make_image_part demo_lib png = Inr (Part_object png (U ''image/png''))"
  by (simp add: make_image_part_def demo_lib_def)

lemma demo_model_answer: "demo_model r n p = Inr r"
  by (simp add: demo_model_def)

subsection \<open>The filename of a record\<close>

text \<open>
  Claim C10. Every record \<open>extract_from_image_path\<close> returns is a dictionary whose \<open>_file\<close>
  key holds the name of the source file: the name is assigned after the parse, so a
  \<open>_file\<close> key of the model's own JSON object is overwritten. The example is a response
  whose object has a \<open>_file\<close> key of its own.
\<close>

theorem file_key_is_source_filename:
  assumes "extract_from_image_path L model n name = (Inr row, n')"
  shows "\<exists>d. row = JDict d \<and> dict_get d k_file = Some (JStr name)"
proof -
  from assms obtain resp where "record_of_response L name resp = Inr row"
    using extract_from_image_path_Inr by blast
  from record_of_response_cases[OF this] show ?thesis
    by (auto simp: empty_record_def parse_failed_record_def dict_get_set_same)
qed

theorem file_key_witness:
  \<open>extract_from_image_path
      demo_lib (demo_model (Response (Inr (Some (U ''{"_file":"evil.png","a":1}''))))) 0 (U ''bill.png'')
    = (Inr (JDict [(k_file, JStr (U ''bill.png'')), (U ''a'', JInt 1)]), 1)
   \<and> dict_get [(k_file, JStr (U ''bill.png'')), (U ''a'', JInt 1)] k_file
       = Some (JStr (U ''bill.png''))\<close>
proof -
  have h: \<open>extract_from_image_path
      demo_lib (demo_model (Response (Inr (Some (U ''{"_file":"evil.png","a":1}''))))) 0 (U ''bill.png'')
    = (Inr (JDict [(k_file, JStr (U ''bill.png'')), (U ''a'', JInt 1)]), 1)\<close>
    by (simp add: re_defs json_defs ex_defs)
  from file_key_is_source_filename[OF h] h show ?thesis by simp
qed

subsection \<open>Error records for empty and unparsed responses\<close>

text \<open>
  Claim C4, as the code has it. When the image is decoded and the API answers, an empty
  response (a response that is false, or whose text is \<open>None\<close> or empty) gives the record
  of the filename and the error tag of an empty response, with no snippet; a response
  whose stripped text \<open>extract_json_from_response\<close> returns \<open>None\<close> for gives the record
  of the filename, the first 200 characters of the stripped text and the error tag of a
  failed parse.
\<close>

theorem error_record_on_empty_or_unparsed:
  assumes "load_image_as_png_bytes L name = Inr png" "make_image_part L png = Inr p"
    "model n p = Inr resp"
  shows "(resp = Falsy_response \<or> resp = Response (Inr None) \<or> resp = Response (Inr (Some []))
           \<longrightarrow> extract_from_image_path L model n name =
                 (Inr (JDict [(k_file, JStr name), (k_error, JStr EMPTY_RESPONSE)]), n + 1))
       \<and> (\<forall>t. resp = Response (Inr (Some t)) \<and> t \<noteq> []
               \<and> extract_json_from_response (json_loads L) (py_strip t) = Inr JNull
           \<longrightarrow> extract_from_image_path L model n name =
                 (Inr (JDict [(k_file, JStr name), (k_raw, JStr (take 200 (py_strip t))),
                              (k_error, JStr PARSE_FAILED)]), n + 1)
               \<and> length (take 200 (py_strip t)) \<le> 200)"
  unfolding extract_after_response[where model = model, OF assms]
  by (auto simp: record_of_response_def empty_record_def parse_failed_record_def Let_def)

theorem error_record_witness:
  \<open>extract_from_image_path demo_lib (demo_model (Response (Inr (Some [])))) 0 (U ''bill.png'')
    = (Inr (JDict [(k_file, JStr (U ''bill.png'')), (k_error, JStr EMPTY_RESPONSE)]), 1)
   \<and> extract_from_image_path demo_lib (demo_model (Response (Inr (Some (U '' no bill here ''))))) 0
        (U ''bill.png'')
    = (Inr (JDict [(k_file, JStr (U ''bill.png'')), (k_raw, JStr (U ''no bill here'')),
                   (k_error, JStr PARSE_FAILED)]), 1)\<close>
proof -
  have none: \<open>extract_json_from_response (json_loads demo_lib) (py_strip (U '' no bill here ''))
      = Inr JNull\<close>
    by (simp add: re_defs json_defs ex_defs)
  have strip: \<open>take 200 (py_strip (U '' no bill here '')) = U ''no bill here''\<close>
    by (simp add: re_defs U_def)
  have ne: \<open>U '' no bill here '' \<noteq> []\<close>
    by (simp add: U_def)
  show ?thesis
    using error_record_on_empty_or_unparsed
            [where model = \<open>demo_model (Response (Inr (Some [])))\<close> and n = 0,
             OF demo_lib_load [of \<open>U ''bill.png''\<close>] demo_lib_part demo_model_answer]
          error_record_on_empty_or_unparsed
            [where model = \<open>demo_model (Response (Inr (Some (U '' no bill here ''))))\<close> and n = 0,
             OF demo_lib_load [of \<open>U ''bill.png''\<close>] demo_lib_part demo_model_answer]
          none strip ne
    by simp
qed

text \<open>
  The claim as the specification states it asks for a snippet of the raw response in
  every error record. The record of an empty response has none.
\<close>

theorem error_record_counterexample:
  \<open>extract_from_image_path demo_lib (demo_model (Response (Inr (Some [])))) 0 (U ''bill.png'')
    = (Inr (JDict [(k_file, JStr (U ''bill.png'')), (k_error, JStr EMPTY_RESPONSE)]), 1)
   \<and> dict_get [(k_file, JStr (U ''bill.png'')), (k_error, JStr EMPTY_RESPONSE)] k_raw = None\<close>
  by (simp add: ex_defs)

subsection \<open>Data records and error records\<close>

text \<open>
  Claim C3, as the code has it. Every record of the loop of \<open>main\<close> (the row
  \<open>extract_from_image_path\<close> returns, or the record built from an exception) is a
  dictionary that holds the filename under \<open>_file\<close>, and it is of one of two kinds: an
  error record, which has an \<open>_error\<close> key and no key but \<open>_file\<close>, \<open>_raw\<close> and \<open>_error\<close>;
  or the object parsed from the stripped text of the response the model gave for this
  image, with \<open>_file\<close> set, which has an \<open>_error\<close> key exactly when the parsed object has
  one.
\<close>

theorem record_has_file_and_one_kind:
  assumes "process_image L model n name = (row, n')"
  shows "\<exists>d. row = JDict d \<and> dict_get d k_file = Some (JStr name) \<and>
     ((k_error \<in> set (dict_keys d) \<and> set (dict_keys d) \<subseteq> {k_file, k_raw, k_error})
      \<or> (\<exists>png part t p.
             load_image_as_png_bytes L name = Inr png \<and> make_image_part L png = Inr part
             \<and> model n part = Inr (Response (Inr (Some t))) \<and> t \<noteq> []
             \<and> extract_json_from_response (json_loads L) (py_strip t) = Inr (JDict p)
             \<and> d = dict_set p k_file (JStr name)
             \<and> (k_error \<in> set (dict_keys d) \<longleftrightarrow> k_error \<in> set (dict_keys p))))"
proof (cases "fst (extract_from_image_path L model n name)")
  case (Inl e)
  with assms have "row = exception_record name e"
    by (auto simp: process_image_def split: prod.splits sum.splits)
  then show ?thesis
    by (simp add: exception_record_def dict_keys_def)
next
  case (Inr r)
  with assms have ex: "extract_from_image_path L model n name = (Inr row, n')"
    by (auto simp: process_image_def split: prod.splits sum.splits)
  from extract_from_image_path_response[OF ex] obtain png part resp where
    lp: "load_image_as_png_bytes L name = Inr png" and mp: "make_image_part L png = Inr part"
    and mr: "model n part = Inr resp" and rr: "record_of_response L name resp = Inr row"
    by blast
  from record_of_response_cases[OF rr] show ?thesis
  proof (elim disjE exE conjE)
    assume "row = empty_record name"
    then show ?thesis by (simp add: empty_record_def dict_keys_def)
  next
    fix t assume "row = parse_failed_record name (py_strip t)"
    then show ?thesis by (simp add: parse_failed_record_def dict_keys_def)
  next
    fix t p
    assume resp: "resp = Response (Inr (Some t))" and ne: "t \<noteq> []"
      and p: "extract_json_from_response (json_loads L) (py_strip t) = Inr (JDict p)"
      and r: "row = JDict (dict_set p k_file (JStr name))"
    have k: "k_error \<in> set (dict_keys (dict_set p k_file (JStr name)))
          \<longleftrightarrow> k_error \<in> set (dict_keys p)"
      using key_consts_distinct(2) by (auto simp: dict_keys_set)
    have "\<exists>png part t p'.
             load_image_as_png_bytes L name = Inr png \<and> make_image_part L png = Inr part
             \<and> model n part = Inr (Response (Inr (Some t))) \<and> t \<noteq> []
             \<and> extract_json_from_response (json_loads L) (py_strip t) = Inr (JDict p')
             \<and> dict_set p k_file (JStr name) = dict_set p' k_file (JStr name)
             \<and> (k_error \<in> set (dict_keys (dict_set p k_file (JStr name)))
                  \<longleftrightarrow> k_error \<in> set (dict_keys p'))"
      using lp mp mr resp ne p k by blast
    with r show ?thesis
      by (simp add: dict_get_set_same)
  qed
qed

theorem record_kind_witness:
  \<open>process_image demo_lib (demo_model (Response (Inr (Some (U ''{"kWh":250}''))))) 0 (U ''bill.png'')
     = (JDict [(U ''kWh'', JInt 250), (k_file, JStr (U ''bill.png''))], 1)
   \<and> dict_get [(U ''kWh'', JInt 250), (k_file, JStr (U ''bill.png''))] k_file
       = Some (JStr (U ''bill.png''))
   \<and> k_error \<notin> set (dict_keys [(U ''kWh'', JInt 250), (k_file, JStr (U ''bill.png''))])\<close>
proof -
  have h: \<open>process_image demo_lib (demo_model (Response (Inr (Some (U ''{"kWh":250}''))))) 0 (U ''bill.png'')
     = (JDict [(U ''kWh'', JInt 250), (k_file, JStr (U ''bill.png''))], 1)\<close>
    by (simp add: re_defs json_defs ex_defs)
  from record_has_file_and_one_kind[OF h] h show ?thesis
    by (simp add: dict_keys_def k_file_def k_error_def U_def)
qed

text \<open>
  The claim as the specification states it has no record with both parsed fields and an
  \<open>_error\<close> key. A response whose object has an \<open>_error\<close> key gives one.
\<close>

theorem record_kind_counterexample:
  \<open>process_image demo_lib (demo_model (Response (Inr (Some (U ''{"_error":"x","kWh":250}''))))) 0
      (U ''bill.png'')
     = (JDict [(k_error, JStr (U ''x'')), (U ''kWh'', JInt 250), (k_file, JStr (U ''bill.png''))], 1)
   \<and> dict_get [(k_error, JStr (U ''x'')), (U ''kWh'', JInt 250), (k_file, JStr (U ''bill.png''))]
        k_error = Some (JStr (U ''x''))
   \<and> dict_get [(k_error, JStr (U ''x'')), (U ''kWh'', JInt 250), (k_file, JStr (U ''bill.png''))]
        (U ''kWh'') = Some (JInt 250)\<close>
  by (simp add: re_defs json_defs ex_defs)

section \<open>Properties of the Desktop Archiver\<close>

subsection \<open>The counter loop ends\<close>

lemma str_nat_nonempty: "str_nat n \<noteq> []"
  by (subst str_nat.simps) simp

lemma str_nat_inj: "str_nat m = str_nat n \<Longrightarrow> m = n"
proof (induction m arbitrary: n rule: str_nat.induct)
  case (1 m)
  show ?case
  proof (cases "m < 10")
    case True
    then have m: "str_nat m = [48 + m]" by (subst str_nat.simps) simp
    show ?thesis
    proof (cases "n < 10")
      case True
      then have "str_nat n = [48 + n]" by (subst str_nat.simps) simp
      with m "1.prems" show ?thesis by simp
    next
      case False
      then have "str_nat n = str_nat (n div 10) @ [48 + n mod 10]"
        by (subst str_nat.simps) simp
      with m "1.prems" have "str_nat (n div 10) = []" by simp
      then show ?thesis using str_nat_nonempty by blast
    qed
  next
    case False
    then have m: "str_nat m = str_nat (m div 10) @ [48 + m mod 10]"
      by (subst str_nat.simps) simp
    show ?thesis
    proof (cases "n < 10")
      case True
      then have "str_nat n = [48 + n]" by (subst str_nat.simps) simp
      with m "1.prems" have "str_nat (m div 10) = []" by simp
      then show ?thesis using str_nat_nonempty by blast
    next
      case n: False
      then have "str_nat n = str_nat (n div 10) @ [48 + n mod 10]"
        by (subst str_nat.simps) simp
      with m "1.prems" have a: "str_nat (m div 10) = str_nat (n div 10)" and b: "m mod 10 = n mod 10"
        by simp_all
      from "1.IH"[OF False a] have "m div 10 = n div 10" .
      with b show ?thesis by (metis div_mult_mod_eq)
    qed
  qed
qed

lemma numbered_inj: "inj (numbered stem sfx)"
  by (auto simp: inj_def numbered_def dest: str_nat_inj)

lemma numbered_bound:
  assumes "finite {d. ex d}"
  shows "\<exists>B. \<forall>k\<ge>B. \<not> ex (numbered stem sfx k)"
proof -
  have "finite (numbered stem sfx -` {d. ex d})"
    using assms numbered_inj by (rule finite_vimageI)
  then have fin: "finite {k. ex (numbered stem sfx k)}" by (simp add: vimage_def)
  show ?thesis
  proof (cases "{k. ex (numbered stem sfx k)} = {}")
    case True then show ?thesis by auto
  next
    case False
    have "\<forall>k\<ge>Suc (Max {k. ex (numbered stem sfx k)}). \<not> ex (numbered stem sfx k)"
      using Max_ge[OF fin] by (metis Suc_n_not_le_n le_trans mem_Collect_eq)
    then show ?thesis by blast
  qed
qed

lemma next_free_from:
  assumes B: "\<forall>k\<ge>B. \<not> ex (numbered stem sfx k)"
  shows "\<exists>d. next_free ex stem sfx dest n = Some d \<and> \<not> ex d
           \<and> (\<not> ex dest \<longrightarrow> d = dest)
           \<and> (ex dest \<longrightarrow> (\<exists>N\<ge>n. d = numbered stem sfx N
                               \<and> (\<forall>k. n \<le> k \<and> k < N \<longrightarrow> ex (numbered stem sfx k))))"
proof (induction "B - n" arbitrary: n dest rule: less_induct)
  case less
  show ?case
  proof (cases "ex dest")
    case False
    then show ?thesis by (subst next_free.simps) simp
  next
    case True
    then have step: "next_free ex stem sfx dest n = next_free ex stem sfx (numbered stem sfx n) (n + 1)"
      by (subst next_free.simps) simp
    show ?thesis
    proof (cases "ex (numbered stem sfx n)")
      case False
      then have "next_free ex stem sfx (numbered stem sfx n) (n + 1) = Some (numbered stem sfx n)"
        by (subst next_free.simps) simp
      with step True False show ?thesis by auto
    next
      case ex_n: True
      with B have "n < B" by (meson not_le)
      then have "B - (n + 1) < B - n" by simp
      from less[OF this, of "numbered stem sfx n"] ex_n
      obtain d N where d: "next_free ex stem sfx (numbered stem sfx n) (n + 1) = Some d" "\<not> ex d"
        "N \<ge> n + 1" "d = numbered stem sfx N" "\<forall>k. n + 1 \<le> k \<and> k < N \<longrightarrow> ex (numbered stem sfx k)"
        by auto
      have "\<forall>k. n \<le> k \<and> k < N \<longrightarrow> ex (numbered stem sfx k)"
      proof (intro allI impI)
        fix k assume "n \<le> k \<and> k < N"
        then show "ex (numbered stem sfx k)"
          using d(5) ex_n by (cases "k = n") auto
      qed
      moreover have "n \<le> N" using d(3) by simp
      ultimately show ?thesis using d step True by (intro exI[of _ d]) (auto intro!: exI[of _ N])
    qed
  qed
qed

lemma choose_dest_total:
  assumes "finite {d. ex d}"
  shows "\<exists>d. choose_dest ex name = Some d \<and> \<not> ex d
           \<and> (\<not> ex name \<longrightarrow> d = name)
           \<and> (ex name \<longrightarrow> (\<exists>N\<ge>1. d = numbered (py_stem name) (py_suffix name) N
                  \<and> (\<forall>k. 1 \<le> k \<and> k < N \<longrightarrow> ex (numbered (py_stem name) (py_suffix name) k))))"
proof -
  from numbered_bound[OF assms] obtain B where
    "\<forall>k\<ge>B. \<not> ex (numbered (py_stem name) (py_suffix name) k)" by blast
  from next_free_from[OF this, of name 1] show ?thesis
    by (auto simp: choose_dest_def)
qed

subsection \<open>One turn of the loop\<close>

lemma choose_dest_list:
  "\<exists>d. choose_dest (\<lambda>x. x \<in> set existing) name = Some d \<and> d \<notin> set existing
     \<and> (name \<notin> set existing \<longrightarrow> d = name)
     \<and> (name \<in> set existing \<longrightarrow>
          (\<exists>N\<ge>1. d = numbered (py_stem name) (py_suffix name) N
             \<and> (\<forall>k. 1 \<le> k \<and> k < N \<longrightarrow> numbered (py_stem name) (py_suffix name) k \<in> set existing)))"
  using choose_dest_total[of "\<lambda>x. x \<in> set existing" name] by simp

lemma visit_cases:
  assumes "visit W name st = Some (x, st')"
  shows "st' = st \<or> (\<exists>e. x = None \<and> st' = st\<lparr>printed := printed st @ [MSG_FAILED name (exn_str e)]\<rparr>)
       \<or> (\<exists>node d. x = None \<and> map_of (s_desktop st) name = Some node \<and> matching (name, node)
             \<and> choose_dest (\<lambda>d. d \<in> set (map fst (s_archive st))) name = Some d
             \<and> d \<notin> set (map fst (s_archive st))
             \<and> move_error W name d = None
             \<and> st' = \<lparr>s_desktop = filter (\<lambda>e. fst e \<noteq> name) (s_desktop st),
                       s_archive = s_archive st @ [(d, node)],
                       moved_count = moved_count st + 1,
                       printed = printed st @ [MSG_MOVED name (get_archive_folder_name W)]\<rparr>)"
proof -
  obtain d where d: "choose_dest (\<lambda>d. d \<in> set (map fst (s_archive st))) name = Some d"
    "d \<notin> set (map fst (s_archive st))"
    using choose_dest_list[of "map fst (s_archive st)" name] by blast
  show ?thesis
    using assms d
    by (auto simp: visit_def matching_def split: option.splits if_splits)
qed





subsection \<open>The frame of a scan\<close>



subsection \<open>Evaluating the examples\<close>

lemmas visit_defs = visit_def choose_dest_def next_free.simps str_nat.simps
  numbered_def py_stem_def py_suffix_def py_lower_def IMAGE_EXTENSIONS_archiver_def
  get_archive_folder_name_def U_def






subsection \<open>The name of the destination\<close>

text \<open>
  Claim C2. For every file name and every list of names that exist in the dated archive
  folder, the loop of the counter ends and chooses a name \<open>d\<close> that does not exist there.
  If the file's own name is free, \<open>d\<close> is that name. Otherwise \<open>d\<close> is the stem, \<open>_N\<close> and
  the suffix for the least \<open>N \<ge> 1\<close> whose name is free: the names of \<open>1, ..., N - 1\<close> all
  exist. The choice depends on the set of existing names only. In the turn of the loop
  for that file the entries of the archive folder stay as they are, and at most one
  entry, of name \<open>d\<close>, is added after them: no existing file is overwritten.
\<close>

theorem collision_free_destination:
  "\<exists>d. choose_dest (\<lambda>x. x \<in> set existing) name = Some d
     \<and> d \<notin> set existing
     \<and> (name \<notin> set existing \<longrightarrow> d = name)
     \<and> (name \<in> set existing \<longrightarrow>
          (\<exists>N\<ge>1. d = py_stem name @ U ''_'' @ str_nat N @ py_suffix name
             \<and> (\<forall>k. 1 \<le> k \<and> k < N
                    \<longrightarrow> py_stem name @ U ''_'' @ str_nat k @ py_suffix name \<in> set existing)))
     \<and> (\<forall>existing'. set existing' = set existing
            \<longrightarrow> choose_dest (\<lambda>x. x \<in> set existing') name = Some d)
     \<and> (\<forall>W st x st'. map fst (s_archive st) = existing \<and> visit W name st = Some (x, st')
            \<longrightarrow> s_archive st' = s_archive st
                \<or> (\<exists>node. s_archive st' = s_archive st @ [(d, node)]))"
proof -
  from choose_dest_list[of existing name] obtain d where
    d1: "choose_dest (\<lambda>x. x \<in> set existing) name = Some d" and d2: "d \<notin> set existing"
    and d3: "name \<notin> set existing \<longrightarrow> d = name"
    and d4: "name \<in> set existing \<longrightarrow>
          (\<exists>N\<ge>1. d = numbered (py_stem name) (py_suffix name) N
             \<and> (\<forall>k. 1 \<le> k \<and> k < N \<longrightarrow> numbered (py_stem name) (py_suffix name) k \<in> set existing))"
    by blast
  have same: "\<forall>existing'. set existing' = set existing
            \<longrightarrow> choose_dest (\<lambda>x. x \<in> set existing') name = Some d"
    using d1 by simp
  have turn: "s_archive st' = s_archive st \<or> (\<exists>node. s_archive st' = s_archive st @ [(d, node)])"
    if e: "map fst (s_archive st) = existing" and v: "visit W name st = Some (x, st')"
    for W :: "'c world" and st x st'
    using visit_cases[OF v]
  proof (elim disjE exE conjE)
    assume "st' = st" then show ?thesis by simp
  next
    fix e assume "st' = st\<lparr>printed := printed st @ [MSG_FAILED name (exn_str e)]\<rparr>"
    then show ?thesis by simp
  next
    fix node d'
    assume c: "choose_dest (\<lambda>d. d \<in> set (map fst (s_archive st))) name = Some d'"
      and s: "st' = \<lparr>s_desktop = filter (\<lambda>e. fst e \<noteq> name) (s_desktop st),
                       s_archive = s_archive st @ [(d', node)],
                       moved_count = moved_count st + 1,
                       printed = printed st @ [MSG_MOVED name (get_archive_folder_name W)]\<rparr>"
    from c e d1 have "d' = d" by simp
    with s show ?thesis by simp
  qed
  have turn': "\<forall>(W :: 'c world) st x st'. map fst (s_archive st) = existing \<and> visit W name st = Some (x, st')
            \<longrightarrow> s_archive st' = s_archive st
                \<or> (\<exists>node. s_archive st' = s_archive st @ [(d, node)])"
    using turn by blast
  from d4 have d4': "name \<in> set existing \<longrightarrow>
          (\<exists>N\<ge>1. d = py_stem name @ U ''_'' @ str_nat N @ py_suffix name
             \<and> (\<forall>k. 1 \<le> k \<and> k < N
                    \<longrightarrow> py_stem name @ U ''_'' @ str_nat k @ py_suffix name \<in> set existing))"
    unfolding numbered_def .
  show ?thesis
    by (rule exI[of _ d]) (intro conjI d1 d2 d3 d4' same turn')
qed

theorem collision_free_destination_witness:
  "choose_dest (\<lambda>x. x \<in> set [U ''a.png'', U ''a_1.png'']) (U ''a.png'') = Some (U ''a_2.png'')
   \<and> U ''a_2.png'' \<notin> set [U ''a.png'', U ''a_1.png'']
   \<and> U ''a_2.png'' = py_stem (U ''a.png'') @ U ''_'' @ str_nat 2 @ py_suffix (U ''a.png'')
   \<and> choose_dest (\<lambda>x. x \<in> set [U ''a_1.png'']) (U ''a.png'') = Some (U ''a.png'')"
proof -
  have e1: "choose_dest (\<lambda>x. x \<in> set [U ''a.png'', U ''a_1.png'']) (U ''a.png'')
            = Some (U ''a_2.png'')"
    by (simp add: visit_defs)
  have e2: "choose_dest (\<lambda>x. x \<in> set [U ''a_1.png'']) (U ''a.png'') = Some (U ''a.png'')"
    by (simp add: visit_defs)
  have e3: "U ''a_2.png'' = py_stem (U ''a.png'') @ U ''_'' @ str_nat 2 @ py_suffix (U ''a.png'')"
    by (simp add: visit_defs)
  from collision_free_destination[of "[U ''a.png'', U ''a_1.png'']" "U ''a.png''"] e1
  have "U ''a_2.png'' \<notin> set [U ''a.png'', U ''a_1.png'']"
    by auto
  with e1 e2 e3 show ?thesis by blast
qed

subsection \<open>The exit status\<close>



subsection \<open>What the scan leaves alone\<close>



section \<open>Properties of the Bill Extractor's main\<close>

subsection \<open>The loop over the images\<close>

lemma process_image_file:
  assumes "process_image L model n name = (row, n')"
  shows "file_of row = Some (JStr name)"
proof (cases "fst (extract_from_image_path L model n name)")
  case (Inl e)
  with assms have "row = exception_record name e"
    by (auto simp: process_image_def split: prod.splits sum.splits)
  then show ?thesis by (simp add: exception_record_def file_of_def)
next
  case (Inr r)
  with assms have ex: "extract_from_image_path L model n name = (Inr row, n')"
    by (auto simp: process_image_def split: prod.splits sum.splits)
  from extract_from_image_path_Inr[OF ex] obtain resp where
    "record_of_response L name resp = Inr row" by blast
  from record_of_response_cases[OF this] show ?thesis
    by (auto simp: file_of_def empty_record_def parse_failed_record_def dict_get_set_same)
qed

lemma extract_calls:
  assumes "extract_from_image_path L model n name = (r, n')"
  shows "n \<le> n' \<and> n' \<le> n + 1"
  using assms by (auto simp: extract_from_image_path_def split: sum.splits)

lemma process_image_calls:
  assumes "process_image L model n name = (row, n')"
  shows "n \<le> n' \<and> n' \<le> n + 1"
proof -
  obtain r k where e: "extract_from_image_path L model n name = (r, k)" by fastforce
  with assms have "n' = k" by (auto simp: process_image_def split: sum.splits)
  with extract_calls[OF e] show ?thesis by simp
qed

lemma process_image_exception:
  assumes "extract_from_image_path L model n name = (Inl e, k)"
  shows "process_image L model n name = (JDict [(k_file, JStr name), (k_error, JStr (exn_str e))], k)"
  using assms by (simp add: process_image_def exception_record_def)

lemma process_images_length:
  "process_images L model n names = (rows, n') \<Longrightarrow> length rows = length names"
  by (induction names arbitrary: n rows n') (auto split: prod.splits)

lemma process_images_calls:
  "process_images L model n names = (rows, n') \<Longrightarrow> n \<le> n' \<and> n' \<le> n + length names"
proof (induction names arbitrary: n rows n')
  case Nil
  then show ?case by simp
next
  case (Cons name names)
  obtain row k where p: "process_image L model n name = (row, k)" by fastforce
  obtain rs k' where ps: "process_images L model k names = (rs, k')" by fastforce
  from Cons.prems p ps have "n' = k'" by simp
  with Cons.IH[OF ps] process_image_calls[OF p] show ?case by simp
qed

lemma process_images_step:
  assumes "process_images L model n names = (rows, n')" "i < length names"
  shows "\<exists>k k'. process_images L model n (take i names) = (take i rows, k)
           \<and> n \<le> k \<and> k \<le> n + i
           \<and> process_image L model k (names ! i) = (rows ! i, k')"
  using assms
proof (induction names arbitrary: n rows i n')
  case Nil
  then show ?case by simp
next
  case (Cons name names)
  obtain row k where p: "process_image L model n name = (row, k)" by fastforce
  obtain rs k' where ps: "process_images L model k names = (rs, k')" by fastforce
  from Cons.prems(1) p ps have rows: "rows = row # rs" by simp
  show ?case
  proof (cases i)
    case 0
    with p rows show ?thesis by simp
  next
    case (Suc j)
    with Cons.prems(2) have j: "j < length names" by simp
    from Cons.IH[OF ps j] obtain m m' where
      m: "process_images L model k (take j names) = (take j rs, m)" "k \<le> m" "m \<le> k + j"
         "process_image L model m (names ! j) = (rs ! j, m')"
      by blast
    from process_image_calls[OF p] m Suc rows p show ?thesis
      by auto
  qed
qed

lemma main_at_loop:
  assumes "reaches_loop A E model"
    "process_images (libs E) model 0 (image_paths (iterdir E)) = (rows, n)"
  shows "main_extractor A E = report A E rows n"
  using assms by (auto simp: reaches_loop_def main_extractor_def Let_def)

lemma report_stdout: "o_stdout (report A E rows n) = [json_dumps E False 2 (JList rows)]"
  by (simp add: report_def Let_def split: option.splits)

lemma report_calls: "o_calls (report A E rows n) = n"
  by (simp add: report_def Let_def split: option.splits)

subsection \<open>The diagnostics\<close>

lemma sublist_concat_member:
  "x \<in> set ys \<Longrightarrow> sublist x (concat (map (\<lambda>z. sep @ z) ys))"
proof (induction ys)
  case Nil
  then show ?case by simp
next
  case (Cons y ys)
  show ?case
  proof (cases "x = y")
    case True
    have "concat (map (\<lambda>z. sep @ z) (y # ys)) = sep @ x @ concat (map (\<lambda>z. sep @ z) ys)"
      using True by simp
    then show ?thesis unfolding sublist_def by blast
  next
    case False
    with Cons have "sublist x (concat (map (\<lambda>z. sep @ z) ys))" by simp
    then obtain ps ss where "concat (map (\<lambda>z. sep @ z) ys) = ps @ x @ ss"
      unfolding sublist_def by blast
    then have "concat (map (\<lambda>z. sep @ z) (y # ys)) = (sep @ y @ ps) @ x @ ss" by simp
    then show ?thesis unfolding sublist_def by blast
  qed
qed

lemma sublist_join_member: "x \<in> set xs \<Longrightarrow> sublist x (py_join sep xs)"
proof (cases xs)
  case Nil
  then show "x \<in> set xs \<Longrightarrow> ?thesis" by simp
next
  case (Cons y ys)
  assume x: "x \<in> set xs"
  show ?thesis
  proof (cases "x = y")
    case True
    have "py_join sep xs = [] @ x @ concat (map (\<lambda>z. sep @ z) ys)"
      using Cons True by (simp add: py_join_def)
    then show ?thesis unfolding sublist_def by blast
  next
    case False
    with x Cons have "x \<in> set ys" by simp
    from sublist_concat_member[OF this, of sep] obtain ps ss where
      "concat (map (\<lambda>z. sep @ z) ys) = ps @ x @ ss" unfolding sublist_def by blast
    then have "py_join sep xs = (y @ ps) @ x @ ss" using Cons by (simp add: py_join_def)
    then show ?thesis unfolding sublist_def by blast
  qed
qed

lemma no_images_names_extensions:
  assumes "x \<in> set exts"
  shows "sublist x (MSG_NO_IMAGES exts folder)"
proof -
  from sublist_join_member[OF assms, of "U '', ''"] obtain ps ss where
    "py_join (U '', '') exts = ps @ x @ ss" unfolding sublist_def by blast
  then have "MSG_NO_IMAGES exts folder
      = (ERR @ [30011, 20687, 12501, 12449, 12452, 12523, 65288] @ ps) @ x
        @ (ss @ [65289, 12364, 12354, 12426, 12414, 12379, 12435, 58, 32] @ folder)"
    by (simp add: MSG_NO_IMAGES_def)
  then show ?thesis unfolding sublist_def by blast
qed

lemma messages_distinct:
  "distinct [MSG_NO_API_KEY, MSG_NO_LIBRARY, MSG_NO_FOLDER f, MSG_NO_IMAGES x f', MSG_NO_MODEL m e]"
  by (simp add: MSG_NO_API_KEY_def MSG_NO_LIBRARY_def MSG_NO_FOLDER_def MSG_NO_IMAGES_def
      MSG_NO_MODEL_def ERR_def U_def)

lemma image_paths_empty: "image_paths entries = [] \<longleftrightarrow> filter is_image entries = []"
proof -
  have "length (image_paths entries) = length (filter is_image entries)"
    by (simp add: image_paths_def)
  then show ?thesis by (metis length_0_conv)
qed

lemma fatal_fields:
  "o_status (fatal msgs) = Inr 1 \<and> o_stderr (fatal msgs) = msgs \<and> o_stdout (fatal msgs) = []
   \<and> o_written (fatal msgs) = [] \<and> o_calls (fatal msgs) = 0"
  by (simp add: fatal_def)

subsection \<open>The paths and the report\<close>

lemma process_images_files:
  "process_images L model n names = (rows, n')
   \<Longrightarrow> map file_of rows = map (\<lambda>name. Some (JStr name)) names"
proof (induction names arbitrary: n rows n')
  case Nil
  then show ?case by simp
next
  case (Cons name names)
  obtain row k where p: "process_image L model n name = (row, k)" by fastforce
  obtain rs k' where ps: "process_images L model k names = (rs, k')" by fastforce
  from Cons.prems p ps have "rows = row # rs" by simp
  with Cons.IH[OF ps] process_image_file[OF p] show ?case by simp
qed

lemma image_paths_sorted: "sorted (image_paths entries)"
  using sorted_sort_key[of "\<lambda>name. name" "map fst (filter is_image entries)"]
  by (simp add: image_paths_def)

lemma image_paths_set:
  "set (image_paths entries)
   = {name. (name, True) \<in> set entries \<and> py_lower (py_suffix name) \<in> IMAGE_EXTENSIONS}"
  by (auto simp: image_paths_def is_image_def image_iff)

lemma image_paths_length: "length (image_paths entries) = length (filter is_image entries)"
  by (simp add: image_paths_def)

lemma report_no_output:
  "a_output A = None \<or> a_output A = Some []
   \<Longrightarrow> o_written (report A E rows n) = [] \<and> o_status (report A E rows n) = Inr 0"
  by (auto simp: report_def Let_def)

lemma report_output:
  "a_output A = Some p \<Longrightarrow> p \<noteq> [] \<Longrightarrow> write_text E p (json_dumps E False 2 (JList rows)) = None
   \<Longrightarrow> o_written (report A E rows n) = [(p, json_dumps E False 2 (JList rows))]
       \<and> o_status (report A E rows n) = Inr 0"
  by (simp add: report_def Let_def)

subsection \<open>Evaluating the examples\<close>

lemmas path_defs = image_paths_def is_image_def py_suffix_def py_lower_def IMAGE_EXTENSIONS_def U_def

lemma demo_paths:
  "image_paths [(U ''b.png'', True), (U ''notes.txt'', True), (U ''x.png'', False),
                (U ''a.JPG'', True), (U ''Z.heic'', True)]
   = [U ''Z.heic'', U ''a.JPG'', U ''b.png'']"
  by (simp add: path_defs)

lemma demo_row:
  \<open>process_image demo_lib (demo_model (Response (Inr (Some (U ''{"kWh":250}''))))) n name
   = (JDict [(U ''kWh'', JInt 250), (k_file, JStr name)], n + 1)\<close>
  by (simp add: re_defs json_defs ex_defs)

lemma demo_rows:
  \<open>process_images demo_lib (demo_model (Response (Inr (Some (U ''{"kWh":250}''))))) 0
     [U ''Z.heic'', U ''a.JPG'', U ''b.png'']
   = ([JDict [(U ''kWh'', JInt 250), (k_file, JStr (U ''Z.heic''))],
       JDict [(U ''kWh'', JInt 250), (k_file, JStr (U ''a.JPG''))],
       JDict [(U ''kWh'', JInt 250), (k_file, JStr (U ''b.png''))]], 3)\<close>
  by (simp add: demo_row)

subsection \<open>One record for each image, in the order of the names\<close>

text \<open>
  Claim C5. When no check before the loop returns, the images processed are the names
  of the entries of the folder that are regular files with an extension, in lower case,
  of \<open>IMAGE_EXTENSIONS\<close>, sorted; there is one record for each, in that order, holding
  the name under \<open>_file\<close>; what is printed to standard output is the one text
  \<open>json.dumps\<close> makes of the list of the records with \<open>ensure_ascii=False\<close> and
  \<open>indent=2\<close>; and with an output path (not empty) whose writing does not raise, that
  text is what is written there and \<open>main\<close> returns 0. Without an output path nothing is
  written.
\<close>

theorem one_record_per_image_in_order:
  assumes "reaches_loop A E model"
  shows "\<exists>rows n. process_images (libs E) model 0 (image_paths (iterdir E)) = (rows, n)
     \<and> o_stdout (main_extractor A E) = [json_dumps E False 2 (JList rows)]
     \<and> map file_of rows = map (\<lambda>name. Some (JStr name)) (image_paths (iterdir E))
     \<and> sorted (image_paths (iterdir E))
     \<and> set (image_paths (iterdir E))
         = {name. (name, True) \<in> set (iterdir E) \<and> py_lower (py_suffix name) \<in> IMAGE_EXTENSIONS}
     \<and> length (image_paths (iterdir E)) = length (filter is_image (iterdir E))
     \<and> (a_output A = None \<or> a_output A = Some []
          \<longrightarrow> o_written (main_extractor A E) = [] \<and> o_status (main_extractor A E) = Inr 0)
     \<and> (\<forall>p. a_output A = Some p \<and> p \<noteq> []
              \<and> write_text E p (json_dumps E False 2 (JList rows)) = None
          \<longrightarrow> o_written (main_extractor A E) = [(p, json_dumps E False 2 (JList rows))]
              \<and> o_status (main_extractor A E) = Inr 0)"
proof -
  obtain rows n where ps: "process_images (libs E) model 0 (image_paths (iterdir E)) = (rows, n)"
    by fastforce
  have m: "main_extractor A E = report A E rows n" using main_at_loop[OF assms ps] .
  show ?thesis
    using ps process_images_files[OF ps] image_paths_sorted image_paths_set image_paths_length
      report_no_output[of A E rows n] report_output[of A _ E rows n]
    unfolding m report_stdout
    by (intro exI[of _ rows] exI[of _ n]) blast
qed

theorem one_record_per_image_in_order_witness:
  \<open>image_paths [(U ''b.png'', True), (U ''notes.txt'', True), (U ''x.png'', False),
                (U ''a.JPG'', True), (U ''Z.heic'', True)]
     = [U ''Z.heic'', U ''a.JPG'', U ''b.png'']
   \<and> main_extractor (demo_args (Some (U ''key'')) (Some (U ''out.json'')))
        (demo_env [(U ''b.png'', True), (U ''notes.txt'', True), (U ''x.png'', False),
                   (U ''a.JPG'', True), (U ''Z.heic'', True)]
           (\<lambda>name. Inr (demo_model (Response (Inr (Some (U ''{"kWh":250}'')))))))
     = \<lparr>o_status = Inr 0,
        o_stdout = [demo_dumps False 2
                      (JList [JDict [(U ''kWh'', JInt 250), (k_file, JStr (U ''Z.heic''))],
                              JDict [(U ''kWh'', JInt 250), (k_file, JStr (U ''a.JPG''))],
                              JDict [(U ''kWh'', JInt 250), (k_file, JStr (U ''b.png''))]])],
        o_stderr = [MSG_SAVED (U ''out.json'')],
        o_written = [(U ''out.json'',
                      demo_dumps False 2
                        (JList [JDict [(U ''kWh'', JInt 250), (k_file, JStr (U ''Z.heic''))],
                                JDict [(U ''kWh'', JInt 250), (k_file, JStr (U ''a.JPG''))],
                                JDict [(U ''kWh'', JInt 250), (k_file, JStr (U ''b.png''))]]))],
        o_calls = 3\<rparr>
   \<and> demo_dumps False 2 (JList [JStr EMPTY_RESPONSE])
     = [91, 10, 32, 32, 34, 31354, 12398, 24540, 31572, 34, 10, 93]\<close>
proof -
  let ?es = "[(U ''b.png'', True), (U ''notes.txt'', True), (U ''x.png'', False),
              (U ''a.JPG'', True), (U ''Z.heic'', True)]"
  let ?m = \<open>demo_model (Response (Inr (Some (U ''{"kWh":250}''))))\<close>
  let ?A = "demo_args (Some (U ''key'')) (Some (U ''out.json''))"
  let ?E = "demo_env ?es (\<lambda>name. Inr ?m)"
  have it: "iterdir ?E = ?es" and lb: "libs ?E = demo_lib" and jd: "json_dumps ?E = demo_dumps"
    and wt: "write_text ?E = (\<lambda>p s. None)"
    by (simp_all add: demo_env_def)
  have r: "reaches_loop ?A ?E ?m"
    unfolding reaches_loop_def it demo_paths
    by (simp add: demo_args_def demo_env_def U_def)
  have out: "a_output ?A = Some (U ''out.json'')" "U ''out.json'' \<noteq> []"
    by (simp_all add: demo_args_def U_def)
  from one_record_per_image_in_order[OF r] obtain rows n where
    ps: "process_images (libs ?E) ?m 0 (image_paths (iterdir ?E)) = (rows, n)"
    and so: "o_stdout (main_extractor ?A ?E) = [json_dumps ?E False 2 (JList rows)]"
    and wr: "\<forall>p. a_output ?A = Some p \<and> p \<noteq> []
              \<and> write_text ?E p (json_dumps ?E False 2 (JList rows)) = None
          \<longrightarrow> o_written (main_extractor ?A ?E) = [(p, json_dumps ?E False 2 (JList rows))]
              \<and> o_status (main_extractor ?A ?E) = Inr 0"
    by blast
  from ps have rows: "rows = [JDict [(U ''kWh'', JInt 250), (k_file, JStr (U ''Z.heic''))],
                              JDict [(U ''kWh'', JInt 250), (k_file, JStr (U ''a.JPG''))],
                              JDict [(U ''kWh'', JInt 250), (k_file, JStr (U ''b.png''))]]"
    and n: "n = 3"
    unfolding it lb demo_paths demo_rows by simp_all
  have m: "main_extractor ?A ?E = report ?A ?E rows n"
    using main_at_loop[OF r ps] .
  have rep: "report ?A ?E rows n
     = \<lparr>o_status = Inr 0, o_stdout = [demo_dumps False 2 (JList rows)],
        o_stderr = [MSG_SAVED (U ''out.json'')],
        o_written = [(U ''out.json'', demo_dumps False 2 (JList rows))], o_calls = n\<rparr>"
    using out by (simp add: report_def jd wt Let_def)
  have d: "demo_dumps False 2 (JList [JStr EMPTY_RESPONSE])
     = [91, 10, 32, 32, 34, 31354, 12398, 24540, 31572, 34, 10, 93]"
    by (simp add: demo_dumps_def dumps_str_def escape_char_def newline_indent_def py_join_def
        EMPTY_RESPONSE_def U_def numeral_2_eq_2)
  show ?thesis
    using demo_paths m rep rows n d so wr by simp
qed

subsection \<open>Exceptions of one image\<close>

text \<open>
  Claim C7. When no check before the loop returns, the run is the report of the rows of
  the loop, whatever happens to an image: there is a row for each image; the row of
  image \<open>i\<close> comes from the one turn of the loop for it, after the turns of the images
  before it, and makes at most one call of the API (no call is retried: the calls of the
  run are at most the images); and when \<open>extract_from_image_path\<close> raises \<open>e\<close> in that
  turn, the row is the record of the filename and \<open>str(e)\<close>. Exceptions are those of
  class \<open>Exception\<close>.
\<close>

theorem per_image_exceptions_become_records:
  assumes "reaches_loop A E model"
    "process_images (libs E) model 0 (image_paths (iterdir E)) = (rows, n)"
  shows "main_extractor A E = report A E rows n
     \<and> o_stdout (main_extractor A E) = [json_dumps E False 2 (JList rows)]
     \<and> length rows = length (image_paths (iterdir E))
     \<and> o_calls (main_extractor A E) \<le> length (image_paths (iterdir E))
     \<and> (\<forall>i<length (image_paths (iterdir E)).
           \<exists>k k'. process_images (libs E) model 0 (take i (image_paths (iterdir E))) = (take i rows, k)
              \<and> process_image (libs E) model k (image_paths (iterdir E) ! i) = (rows ! i, k')
              \<and> k' \<le> k + 1
              \<and> (\<forall>e j. extract_from_image_path (libs E) model k (image_paths (iterdir E) ! i) = (Inl e, j)
                    \<longrightarrow> rows ! i = JDict [(k_file, JStr (image_paths (iterdir E) ! i)),
                                          (k_error, JStr (exn_str e))]))"
proof -
  let ?names = "image_paths (iterdir E)"
  have m: "main_extractor A E = report A E rows n" using main_at_loop[OF assms] .
  have steps: "\<exists>k k'. process_images (libs E) model 0 (take i ?names) = (take i rows, k)
              \<and> process_image (libs E) model k (?names ! i) = (rows ! i, k')
              \<and> k' \<le> k + 1
              \<and> (\<forall>e j. extract_from_image_path (libs E) model k (?names ! i) = (Inl e, j)
                    \<longrightarrow> rows ! i = JDict [(k_file, JStr (?names ! i)), (k_error, JStr (exn_str e))])"
    if i: "i < length ?names" for i
  proof -
    from process_images_step[OF assms(2) i] obtain k k' where
      k: "process_images (libs E) model 0 (take i ?names) = (take i rows, k)"
         "process_image (libs E) model k (?names ! i) = (rows ! i, k')"
      by blast
    have "rows ! i = JDict [(k_file, JStr (?names ! i)), (k_error, JStr (exn_str e))]"
      if "extract_from_image_path (libs E) model k (?names ! i) = (Inl e, j)" for e j
      using process_image_exception[OF that] k(2) by simp
    with k process_image_calls[OF k(2)] show ?thesis by blast
  qed
  from process_images_calls[OF assms(2)] have "n \<le> length ?names" by simp
  with m steps process_images_length[OF assms(2)] show ?thesis
    by (simp add: report_stdout report_calls)
qed

theorem per_image_exceptions_witness:
  \<open>main_extractor (demo_args (Some (U ''key'')) None)
      (demo_env [(U ''b.png'', True), (U ''a.jpg'', True)]
         (\<lambda>name. Inr (flaky_model (Exn OtherError (U ''503 Service Unavailable''))
                        (Response (Inr (Some (U ''{"kWh":250}'')))))))
   = \<lparr>o_status = Inr 0,
      o_stdout = [demo_dumps False 2
                    (JList [JDict [(k_file, JStr (U ''a.jpg'')),
                                   (k_error, JStr (U ''503 Service Unavailable''))],
                            JDict [(U ''kWh'', JInt 250), (k_file, JStr (U ''b.png''))]])],
      o_stderr = [], o_written = [], o_calls = 2\<rparr>\<close>
proof -
  let ?es = "[(U ''b.png'', True), (U ''a.jpg'', True)]"
  let ?m = \<open>flaky_model (Exn OtherError (U ''503 Service Unavailable''))
             (Response (Inr (Some (U ''{"kWh":250}''))))\<close>
  let ?A = "demo_args (Some (U ''key'')) None"
  let ?E = "demo_env ?es (\<lambda>name. Inr ?m)"
  have it: "iterdir ?E = ?es" and lb: "libs ?E = demo_lib" and jd: "json_dumps ?E = demo_dumps"
    by (simp_all add: demo_env_def)
  have paths: "image_paths ?es = [U ''a.jpg'', U ''b.png'']"
    by (simp add: path_defs)
  have r: "reaches_loop ?A ?E ?m"
    unfolding reaches_loop_def it paths
    by (simp add: demo_args_def demo_env_def U_def)
  have p0: "process_image demo_lib ?m 0 (U ''a.jpg'')
            = (JDict [(k_file, JStr (U ''a.jpg'')), (k_error, JStr (U ''503 Service Unavailable''))], 1)"
    by (simp add: ex_defs flaky_model_def)
  have p1: \<open>process_image demo_lib ?m (Suc 0) (U ''b.png'')
            = (JDict [(U ''kWh'', JInt 250), (k_file, JStr (U ''b.png''))], 2)\<close>
    by (simp add: re_defs json_defs ex_defs flaky_model_def)
  have ps: \<open>process_images (libs ?E) ?m 0 (image_paths (iterdir ?E))
     = ([JDict [(k_file, JStr (U ''a.jpg'')), (k_error, JStr (U ''503 Service Unavailable''))],
         JDict [(U ''kWh'', JInt 250), (k_file, JStr (U ''b.png''))]], 2)\<close>
    unfolding it lb paths by (simp add: p0 p1)
  have rep: "report ?A ?E rows n
     = \<lparr>o_status = Inr 0, o_stdout = [demo_dumps False 2 (JList rows)], o_stderr = [],
        o_written = [], o_calls = n\<rparr>" for rows n
    by (simp add: report_def jd demo_args_def Let_def)
  from per_image_exceptions_become_records[OF r ps] rep show ?thesis
    by simp
qed

subsection \<open>Fatal preconditions\<close>

text \<open>
  Claim C6. Each check of \<open>main\<close>, when the checks before it pass and the run is not in
  the mode that lists the models: without an API key, without the API client, when the
  folder is not a directory, when no entry is an image, and when making the model
  raises, \<open>main\<close> returns 1 with its own diagnostic on standard error (and a hint after
  it for the model), nothing on standard output, no file written and no call of the API.
  The five diagnostics differ from each other whatever the folder, the extensions, the
  model name and the exception are, and the diagnostic for no image contains every
  extension of \<open>IMAGE_EXTENSIONS\<close>.
\<close>

theorem fatal_preconditions:
  "(a_api_key A = None \<or> a_api_key A = Some [] \<longrightarrow> main_extractor A E = fatal [MSG_NO_API_KEY])
   \<and> (a_api_key A \<noteq> None \<and> a_api_key A \<noteq> Some [] \<and> \<not> genai_present E
        \<longrightarrow> main_extractor A E = fatal [MSG_NO_LIBRARY])
   \<and> (a_api_key A \<noteq> None \<and> a_api_key A \<noteq> Some [] \<and> genai_present E \<and> \<not> a_list_models A
        \<and> \<not> is_dir E
        \<longrightarrow> main_extractor A E = fatal [MSG_NO_FOLDER (resolved E)])
   \<and> (a_api_key A \<noteq> None \<and> a_api_key A \<noteq> Some [] \<and> genai_present E \<and> \<not> a_list_models A
        \<and> is_dir E \<and> filter is_image (iterdir E) = []
        \<longrightarrow> main_extractor A E = fatal [MSG_NO_IMAGES (ext_order E) (resolved E)])
   \<and> (\<forall>e. a_api_key A \<noteq> None \<and> a_api_key A \<noteq> Some [] \<and> genai_present E \<and> \<not> a_list_models A
        \<and> is_dir E \<and> filter is_image (iterdir E) \<noteq> []
        \<and> generative_model E (strip_models_prefix (a_model A)) = Inl e
        \<longrightarrow> main_extractor A E
              = fatal [MSG_NO_MODEL (strip_models_prefix (a_model A)) (exn_str e), MSG_HINT])
   \<and> (\<forall>msgs. o_status (fatal msgs) = Inr 1 \<and> o_stderr (fatal msgs) = msgs
          \<and> o_stdout (fatal msgs) = [] \<and> o_written (fatal msgs) = [] \<and> o_calls (fatal msgs) = 0)
   \<and> (\<forall>f x f' m e. distinct [MSG_NO_API_KEY, MSG_NO_LIBRARY, MSG_NO_FOLDER f, MSG_NO_IMAGES x f',
                              MSG_NO_MODEL m e])
   \<and> (set (ext_order E) = IMAGE_EXTENSIONS
        \<longrightarrow> (\<forall>x\<in>IMAGE_EXTENSIONS. sublist x (MSG_NO_IMAGES (ext_order E) (resolved E))))"
proof (intro conjI)
  show "a_api_key A = None \<or> a_api_key A = Some [] \<longrightarrow> main_extractor A E = fatal [MSG_NO_API_KEY]"
    by (auto simp: main_extractor_def)
  show "a_api_key A \<noteq> None \<and> a_api_key A \<noteq> Some [] \<and> \<not> genai_present E
        \<longrightarrow> main_extractor A E = fatal [MSG_NO_LIBRARY]"
    by (auto simp: main_extractor_def)
  show "a_api_key A \<noteq> None \<and> a_api_key A \<noteq> Some [] \<and> genai_present E \<and> \<not> a_list_models A
        \<and> \<not> is_dir E
        \<longrightarrow> main_extractor A E = fatal [MSG_NO_FOLDER (resolved E)]"
    by (auto simp: main_extractor_def)
  show "a_api_key A \<noteq> None \<and> a_api_key A \<noteq> Some [] \<and> genai_present E \<and> \<not> a_list_models A
        \<and> is_dir E \<and> filter is_image (iterdir E) = []
        \<longrightarrow> main_extractor A E = fatal [MSG_NO_IMAGES (ext_order E) (resolved E)]"
    using image_paths_empty[of "iterdir E"] by (auto simp: main_extractor_def)
  show "\<forall>e. a_api_key A \<noteq> None \<and> a_api_key A \<noteq> Some [] \<and> genai_present E \<and> \<not> a_list_models A
        \<and> is_dir E \<and> filter is_image (iterdir E) \<noteq> []
        \<and> generative_model E (strip_models_prefix (a_model A)) = Inl e
        \<longrightarrow> main_extractor A E
              = fatal [MSG_NO_MODEL (strip_models_prefix (a_model A)) (exn_str e), MSG_HINT]"
    using image_paths_empty[of "iterdir E"] by (auto simp: main_extractor_def Let_def)
  show "\<forall>msgs. o_status (fatal msgs) = Inr 1 \<and> o_stderr (fatal msgs) = msgs
          \<and> o_stdout (fatal msgs) = [] \<and> o_written (fatal msgs) = [] \<and> o_calls (fatal msgs) = 0"
    using fatal_fields by blast
  show "\<forall>f x f' m e. distinct [MSG_NO_API_KEY, MSG_NO_LIBRARY, MSG_NO_FOLDER f, MSG_NO_IMAGES x f',
                              MSG_NO_MODEL m e]"
    using messages_distinct by blast
  show "set (ext_order E) = IMAGE_EXTENSIONS
        \<longrightarrow> (\<forall>x\<in>IMAGE_EXTENSIONS. sublist x (MSG_NO_IMAGES (ext_order E) (resolved E)))"
    using no_images_names_extensions by blast
qed

theorem fatal_preconditions_witness:
  \<open>main_extractor (demo_args None None) (demo_env [(U ''a.jpg'', True)] (\<lambda>name. Inr (demo_model Falsy_response)))
     = \<lparr>o_status = Inr 1, o_stdout = [], o_stderr = [MSG_NO_API_KEY], o_written = [], o_calls = 0\<rparr>
   \<and> main_extractor (demo_args (Some (U ''key'')) None)
        ((demo_env [(U ''a.jpg'', True)] (\<lambda>name. Inr (demo_model Falsy_response)))
           \<lparr>genai_present := False\<rparr>)
     = \<lparr>o_status = Inr 1, o_stdout = [], o_stderr = [MSG_NO_LIBRARY], o_written = [], o_calls = 0\<rparr>
   \<and> main_extractor (demo_args (Some (U ''key'')) None)
        ((demo_env [(U ''a.jpg'', True)] (\<lambda>name. Inr (demo_model Falsy_response)))
           \<lparr>is_dir := False\<rparr>)
     = \<lparr>o_status = Inr 1, o_stdout = [], o_stderr = [MSG_NO_FOLDER (U ''/bills'')], o_written = [],
        o_calls = 0\<rparr>
   \<and> main_extractor (demo_args (Some (U ''key'')) None)
        (demo_env [(U ''notes.txt'', True), (U ''x.png'', False)]
           (\<lambda>name. Inr (demo_model Falsy_response)))
     = \<lparr>o_status = Inr 1, o_stdout = [],
        o_stderr = [MSG_NO_IMAGES [U ''.jpg'', U ''.heic'', U ''.png'', U ''.heif'', U ''.jpeg'']
                      (U ''/bills'')],
        o_written = [], o_calls = 0\<rparr>
   \<and> main_extractor (demo_args (Some (U ''key'')) None)
        (demo_env [(U ''a.jpg'', True)] (\<lambda>name. Inl (Exn OtherError (U ''404 not found''))))
     = \<lparr>o_status = Inr 1, o_stdout = [],
        o_stderr = [MSG_NO_MODEL (U ''gemini-1.5-flash-latest'') (U ''404 not found''), MSG_HINT],
        o_written = [], o_calls = 0\<rparr>
   \<and> sublist (U ''.heic'')
        (MSG_NO_IMAGES [U ''.jpg'', U ''.heic'', U ''.png'', U ''.heif'', U ''.jpeg''] (U ''/bills''))\<close>
proof -
  let ?gm = "\<lambda>name::ustr. (Inr (demo_model Falsy_response) :: pyexn + model)"
  let ?E = "demo_env [(U ''a.jpg'', True)] ?gm"
  have noimg: "filter is_image [(U ''notes.txt'', True), (U ''x.png'', False)] = []"
    by (simp add: path_defs)
  have exts: "set [U ''.jpg'', U ''.heic'', U ''.png'', U ''.heif'', U ''.jpeg''] = IMAGE_EXTENSIONS"
    by (auto simp: IMAGE_EXTENSIONS_def)
  have heic: "U ''.heic'' \<in> IMAGE_EXTENSIONS"
    by (simp add: IMAGE_EXTENSIONS_def)
  have 1: "main_extractor (demo_args None None) ?E = fatal [MSG_NO_API_KEY]"
    using fatal_preconditions[of "demo_args None None" ?E]
    by (simp add: demo_args_def)
  have 2: "main_extractor (demo_args (Some (U ''key'')) None) (?E\<lparr>genai_present := False\<rparr>)
           = fatal [MSG_NO_LIBRARY]"
    using fatal_preconditions[of "demo_args (Some (U ''key'')) None" "?E\<lparr>genai_present := False\<rparr>"]
    by (simp add: demo_args_def demo_env_def U_def)
  have 3: "main_extractor (demo_args (Some (U ''key'')) None) (?E\<lparr>is_dir := False\<rparr>)
           = fatal [MSG_NO_FOLDER (U ''/bills'')]"
    using fatal_preconditions[of "demo_args (Some (U ''key'')) None" "?E\<lparr>is_dir := False\<rparr>"]
    by (simp add: demo_args_def demo_env_def U_def)
  have 4: "main_extractor (demo_args (Some (U ''key'')) None)
             (demo_env [(U ''notes.txt'', True), (U ''x.png'', False)] ?gm)
           = fatal [MSG_NO_IMAGES [U ''.jpg'', U ''.heic'', U ''.png'', U ''.heif'', U ''.jpeg'']
                      (U ''/bills'')]
         \<and> sublist (U ''.heic'')
             (MSG_NO_IMAGES [U ''.jpg'', U ''.heic'', U ''.png'', U ''.heif'', U ''.jpeg''] (U ''/bills''))"
    using fatal_preconditions[of "demo_args (Some (U ''key'')) None"
            "demo_env [(U ''notes.txt'', True), (U ''x.png'', False)] ?gm"] noimg exts heic
    by (simp add: demo_args_def demo_env_def U_def)
  have 5: "main_extractor (demo_args (Some (U ''key'')) None)
             (demo_env [(U ''a.jpg'', True)] (\<lambda>name. Inl (Exn OtherError (U ''404 not found''))))
           = fatal [MSG_NO_MODEL (U ''gemini-1.5-flash-latest'') (U ''404 not found''), MSG_HINT]"
    using fatal_preconditions[of "demo_args (Some (U ''key'')) None"
            "demo_env [(U ''a.jpg'', True)] (\<lambda>name. Inl (Exn OtherError (U ''404 not found'')))"]
    by (simp add: demo_args_def demo_env_def U_def path_defs strip_models_prefix_def)
  show ?thesis
    using 1 2 3 4 5 by (simp add: fatal_def)
qed

section \<open>Properties of the parse of a response\<close>

subsection \<open>The braces\<close>

lemma any_char_True: "any_char c"
  by (simp add: any_char_def)

lemma through_last_prefix: "take (length (through_last c s)) s = through_last c s"
  by (induction s) auto

lemma star_then_close:
  assumes "\<And>x. c x"
  shows "match_here [Star c, Lit [125]] s pos gs ge
   = (if 125 \<in> set s then Some (pos + length (through_last 125 s), gs, ge) else None)"
proof (induction s arbitrary: pos)
  case Nil
  then show ?case by simp
next
  case (Cons x xs)
  show ?case
    using assms[of x] by (simp add: Cons.IH)
qed

lemma brace_here:
  "match_here brace_re (x # xs) pos gs ge
   = (if x = 123 \<and> 125 \<in> set xs then Some (pos + 1 + length (through_last 125 xs), gs, ge)
      else None)"
  by (simp add: brace_re_def star_then_close[of any_char, OF any_char_True])

lemma brace_nowhere: "125 \<notin> set s \<Longrightarrow> search_from brace_re s pos = None"
proof (induction s arbitrary: pos)
  case Nil
  then show ?case by (simp add: brace_re_def)
next
  case (Cons x xs)
  then show ?case by (simp add: brace_here)
qed

lemma brace_search:
  "map_option (group0 (pre @ s)) (search_from brace_re s (length pre)) = spec_braced s"
proof (induction s arbitrary: pre)
  case Nil
  then show ?case by (simp add: brace_re_def)
next
  case (Cons x xs)
  show ?case
  proof (cases "x = 123")
    case True
    show ?thesis
    proof (cases "125 \<in> set xs")
      case c: True
      with True show ?thesis
        by (simp add: brace_here group0_def slice_def through_last_prefix)
    next
      case False
      with True brace_nowhere[OF False] show ?thesis
        by (simp add: brace_here)
    qed
  next
    case False
    have "map_option (group0 ((pre @ [x]) @ xs)) (search_from brace_re xs (length (pre @ [x])))
          = spec_braced xs"
      by (rule Cons.IH)
    with False show ?thesis by (simp add: brace_here)
  qed
qed

lemma brace_re_search: "map_option (group0 text) (re_search brace_re text) = spec_braced text"
  using brace_search[of "[]" "text"] by (simp add: re_search_def)

subsection \<open>Stripping\<close>

lemma rstrip_Cons:
  "py_rstrip (x # b) = (if \<forall>c\<in>set (x # b). is_space c then [] else x # py_rstrip b)"
proof (cases "\<forall>c\<in>set b. is_space c")
  case True
  then have "dropWhile is_space (rev b) = []" by simp
  then show ?thesis using True by (simp add: py_rstrip_def dropWhile_append)
next
  case False
  then have "dropWhile is_space (rev b) \<noteq> []" by simp
  then show ?thesis using False by (auto simp: py_rstrip_def dropWhile_append)
qed

lemma rstrip_all_space: "\<forall>c\<in>set b. is_space c \<Longrightarrow> py_rstrip b = []"
  by (simp add: py_rstrip_def)

lemma rstrip_prefix: "take (length (py_rstrip b)) (b @ t) = py_rstrip b"
  by (induction b) (auto simp: rstrip_Cons rstrip_all_space)

lemma rstrip_idem: "py_rstrip (py_rstrip b) = py_rstrip b"
  by (simp add: py_rstrip_def)

lemma strip_idem: "py_strip (py_strip b) = py_strip b"
proof -
  define y where "y = py_lstrip b"
  have hd: "y = [] \<or> \<not> is_space (hd y)"
    unfolding y_def py_lstrip_def by (metis hd_dropWhile)
  have l: "py_lstrip (py_rstrip y) = py_rstrip y"
  proof (cases y)
    case Nil
    then show ?thesis by (simp add: py_lstrip_def py_rstrip_def)
  next
    case (Cons h t)
    with hd have "\<not> is_space h" by simp
    then show ?thesis using Cons by (simp add: rstrip_Cons py_lstrip_def)
  qed
  have "py_strip (py_strip b) = py_rstrip (py_lstrip (py_rstrip y))"
    by (simp add: py_strip_def y_def)
  also have "\<dots> = py_rstrip (py_rstrip y)" by (simp only: l)
  also have "\<dots> = py_rstrip y" by (rule rstrip_idem)
  also have "\<dots> = py_strip b" by (simp add: py_strip_def y_def)
  finally show ?thesis .
qed

subsection \<open>The fenced block\<close>

lemma backquote_not_space: "\<not> is_space 96"
  by (simp add: is_space_def)

lemma fence_head: "prefix fence (x # xs) \<Longrightarrow> x = 96"
  by (simp add: fence_def)

lemma space_not_fence: "is_space x \<Longrightarrow> \<not> prefix fence (x # xs)"
  using backquote_not_space fence_head by blast

lemma length_fence: "length fence = 3"
  by (simp add: fence_def)

lemma upto_fence_split: "upto_fence s = Some b \<Longrightarrow> \<exists>post. s = b @ fence @ post"
proof (induction s arbitrary: b)
  case Nil
  then show ?case by simp
next
  case (Cons x xs)
  show ?case
  proof (cases "prefix fence (x # xs)")
    case True
    with Cons.prems have "b = []" by simp
    with True show ?thesis by (auto simp: prefix_def)
  next
    case False
    with Cons.prems obtain b' where b': "upto_fence xs = Some b'" "b = x # b'" by auto
    from Cons.IH[OF b'(1)] b'(2) show ?thesis by auto
  qed
qed

lemma upto_fence_space: "is_space x \<Longrightarrow> upto_fence (x # xs) = map_option ((#) x) (upto_fence xs)"
  using space_not_fence by simp

lemma upto_fence_after_spaces:
  "prefix fence (dropWhile is_space s) \<Longrightarrow> upto_fence s = Some (takeWhile is_space s)"
proof (induction s)
  case Nil
  then show ?case by (simp add: fence_def)
next
  case (Cons x xs)
  then show ?case by (cases "is_space x") (auto simp: upto_fence_space dest: space_not_fence)
qed

lemma upto_fence_head: "upto_fence (x # xs) = Some b \<Longrightarrow> b = [] \<or> (\<exists>b'. b = x # b')"
  by (auto split: if_splits)

lemma star_then_fence:
  "match_here [Star is_space, Lit fence] s p gs ge
   = (if prefix fence (dropWhile is_space s)
      then Some (p + length (takeWhile is_space s) + 3, gs, ge) else None)"
proof (induction s arbitrary: p)
  case Nil
  then show ?case by (simp add: fence_def)
next
  case (Cons x xs)
  show ?case
  proof (cases "is_space x")
    case True
    with space_not_fence[OF True, of xs] show ?thesis
      by (simp add: Cons.IH)
  next
    case False
    then show ?thesis by (simp add: length_fence)
  qed
qed

lemma close_then_fence:
  "match_here [GClose, Star is_space, Lit fence] s p gs ge
   = (if prefix fence (dropWhile is_space s)
      then Some (p + length (takeWhile is_space s) + 3, gs, p) else None)"
  by (simp add: star_then_fence)

lemma lazy_unfold:
  "match_here (LazyStar c # its) (x # xs) p gs ge
   = (case match_here its (x # xs) p gs ge of
        Some r \<Rightarrow> Some r
      | None \<Rightarrow> if c x then match_here (LazyStar c # its) xs (p + 1) gs ge else None)"
  by simp

lemma lazy_group:
  assumes "\<And>x. c x"
  shows "match_here [LazyStar c, GClose, Star is_space, Lit fence] s p g0 ge
   = (case upto_fence s of
        None \<Rightarrow> None
      | Some b \<Rightarrow> Some (p + length b + 3, g0, p + length (py_rstrip b)))"
proof (induction s arbitrary: p ge)
  case Nil
  then show ?case by (simp add: star_then_fence fence_def)
next
  case (Cons x xs)
  let ?s = "x # xs"
  show ?case
  proof (cases "prefix fence (dropWhile is_space ?s)")
    case True
    have r: "py_rstrip (takeWhile is_space ?s) = []"
      by (rule rstrip_all_space) (metis set_takeWhileD)
    have "match_here [LazyStar c, GClose, Star is_space, Lit fence] ?s p g0 ge
          = Some (p + length (takeWhile is_space ?s) + 3, g0, p)"
      unfolding lazy_unfold close_then_fence using True by simp
    with upto_fence_after_spaces[OF True] r show ?thesis
      by (simp del: upto_fence.simps dropWhile.simps takeWhile.simps match_here.simps)
  next
    case False
    have nf: "\<not> prefix fence ?s"
    proof
      assume pf: "prefix fence ?s"
      then have "\<not> is_space x" using space_not_fence by blast
      with pf False show False by simp
    qed
    have step: "match_here [LazyStar c, GClose, Star is_space, Lit fence] ?s p g0 ge
          = match_here [LazyStar c, GClose, Star is_space, Lit fence] xs (p + 1) g0 ge"
      unfolding lazy_unfold close_then_fence using False assms[of x] by simp
    show ?thesis
    proof (cases "upto_fence xs")
      case None
      with nf show ?thesis unfolding step Cons.IH by simp
    next
      case (Some b')
      from upto_fence_split[OF Some] obtain post where xs: "xs = b' @ fence @ post" by blast
      have "\<not> (\<forall>c\<in>set (x # b'). is_space c)"
      proof
        assume a: "\<forall>c\<in>set (x # b'). is_space c"
        then have "dropWhile is_space ?s = dropWhile is_space (fence @ post)"
          unfolding xs by (simp add: dropWhile_append)
        also have "\<dots> = fence @ post"
          using backquote_not_space by (simp add: fence_def)
        finally show False using False by simp
      qed
      then have "py_rstrip (x # b') = x # py_rstrip b'" by (simp add: rstrip_Cons)
      with Some nf show ?thesis unfolding step Cons.IH by simp
    qed
  qed
qed

lemma group_then_fence:
  assumes "\<And>x. c x"
  shows "match_here [GOpen, LazyStar c, GClose, Star is_space, Lit fence] s p gs ge
   = (case upto_fence s of
        None \<Rightarrow> None
      | Some b \<Rightarrow> Some (p + length b + 3, p, p + length (py_rstrip b)))"
  by (simp add: lazy_group[OF assms] del: match_here.simps(6,7))

lemma star_unfold:
  "match_here (Star c # its) (x # xs) p gs ge
   = (if c x then
        (case match_here (Star c # its) xs (p + 1) gs ge of
           Some r \<Rightarrow> Some r
         | None \<Rightarrow> match_here its (x # xs) p gs ge)
      else match_here its (x # xs) p gs ge)"
  by simp

lemma fence_tail:
  assumes "\<And>x. c x"
  shows "match_here [Star is_space, GOpen, LazyStar c, GClose, Star is_space, Lit fence] r p gs ge
   = (case upto_fence r of
        None \<Rightarrow> None
      | Some b \<Rightarrow> Some (p + length b + 3, p + length (takeWhile is_space b),
                        p + length (takeWhile is_space b) + length (py_strip b)))"
proof (induction r arbitrary: p)
  case Nil
  have "match_here [Star is_space, GOpen, LazyStar c, GClose, Star is_space, Lit fence] [] p gs ge
        = match_here [GOpen, LazyStar c, GClose, Star is_space, Lit fence] [] p gs ge"
    by simp
  then show ?case unfolding group_then_fence[OF assms] by simp
next
  case (Cons x xs)
  note g = group_then_fence[OF assms]
  show ?case
  proof (cases "is_space x")
    case True
    show ?thesis
    proof (cases "upto_fence xs")
      case None
      with True show ?thesis
        unfolding star_unfold Cons.IH g upto_fence_space[OF True] by simp
    next
      case (Some b')
      with True show ?thesis
        unfolding star_unfold Cons.IH g upto_fence_space[OF True]
        by (simp add: py_strip_def py_lstrip_def)
    qed
  next
    case False
    have m: "match_here [Star is_space, GOpen, LazyStar c, GClose, Star is_space, Lit fence] (x # xs) p gs ge
          = (case upto_fence (x # xs) of
               None \<Rightarrow> None
             | Some b \<Rightarrow> Some (p + length b + 3, p, p + length (py_rstrip b)))"
      unfolding star_unfold g using False by simp
    show ?thesis
    proof (cases "upto_fence (x # xs)")
      case None
      with m show ?thesis by simp
    next
      case (Some b)
      from upto_fence_head[OF Some] False
      have "takeWhile is_space b = []" "py_strip b = py_rstrip b"
        by (auto simp: py_strip_def py_lstrip_def)
      with m Some show ?thesis by simp
    qed
  qed
qed

lemma skip_json_drop: "skip_json r = drop (json_len r) r"
  by (simp add: skip_json_def json_len_def)

lemma json_no_fence:
  assumes "prefix (U ''json'') r" "upto_fence (drop 4 r) = None"
  shows "upto_fence r = None"
proof -
  from assms(1) obtain r' where r: "r = [106, 115, 111, 110] @ r'"
    by (auto simp: prefix_def U_def)
  with assms(2) show ?thesis by (simp add: fence_def)
qed

lemma opt_unfold:
  "match_here (Opt l # its) s p gs ge
   = (if prefix l s then
        (case match_here its (drop (length l) s) (p + length l) gs ge of
           Some r \<Rightarrow> Some r
         | None \<Rightarrow> match_here its s p gs ge)
      else match_here its s p gs ge)"
  by simp

lemma fence_after_open:
  assumes "\<And>x. c x"
  shows "match_here [Opt (U ''json''), Star is_space, GOpen, LazyStar c, GClose, Star is_space, Lit fence]
           r p gs ge
   = (case upto_fence (skip_json r) of
        None \<Rightarrow> None
      | Some b \<Rightarrow> Some (p + json_len r + length b + 3,
                        p + json_len r + length (takeWhile is_space b),
                        p + json_len r + length (takeWhile is_space b) + length (py_strip b)))"
proof (cases "prefix (U ''json'') r")
  case True
  have l: "length (U ''json'') = 4" by (simp add: U_def)
  show ?thesis
  proof (cases "upto_fence (drop 4 r)")
    case None
    with json_no_fence[OF True None] True show ?thesis
      unfolding opt_unfold fence_tail[OF assms] l
      by (simp add: skip_json_def json_len_def)
  next
    case (Some b)
    with True show ?thesis
      unfolding opt_unfold fence_tail[OF assms] l
      by (simp add: skip_json_def json_len_def)
  qed
next
  case False
  then show ?thesis
    unfolding opt_unfold fence_tail[OF assms]
    by (cases "upto_fence r") (simp_all add: skip_json_def json_len_def)
qed

lemma fence_here:
  "match_here fence_re s p gs ge
   = (if prefix fence s then
        (case upto_fence (skip_json (drop 3 s)) of
           None \<Rightarrow> None
         | Some b \<Rightarrow>
             Some (p + 3 + json_len (drop 3 s) + length b + 3,
                   p + 3 + json_len (drop 3 s) + length (takeWhile is_space b),
                   p + 3 + json_len (drop 3 s) + length (takeWhile is_space b)
                     + length (py_strip b)))
      else None)"
proof -
  have "match_here fence_re s p gs ge
        = (if prefix fence s then
             match_here [Opt (U ''json''), Star is_space, GOpen, LazyStar any_char, GClose,
                         Star is_space, Lit fence] (drop 3 s) (p + 3) gs ge
           else None)"
    by (simp add: fence_re_def length_fence del: match_here.simps(3))
  then show ?thesis
    unfolding fence_after_open[of any_char, OF any_char_True] by simp
qed

lemma strip_group:
  assumes "prefix fence s" "upto_fence (skip_json (drop 3 s)) = Some b"
  shows "take (length (py_strip b))
           (drop (length pre + 3 + json_len (drop 3 s) + length (takeWhile is_space b)) (pre @ s))
         = py_strip b"
proof -
  from upto_fence_split[OF assms(2)] obtain post where
    sk: "skip_json (drop 3 s) = b @ fence @ post" by blast
  have "drop (length pre + 3 + json_len (drop 3 s) + length (takeWhile is_space b)) (pre @ s)
        = drop (length (takeWhile is_space b)) (drop (json_len (drop 3 s)) (drop 3 s))"
    by (simp add: add.commute add.left_commute)
  also have "\<dots> = drop (length (takeWhile is_space b)) (b @ fence @ post)"
    using sk by (simp add: skip_json_drop)
  also have "\<dots> = dropWhile is_space b @ fence @ post"
    by (metis append_assoc append_eq_conv_conj takeWhile_dropWhile_id)
  finally have d: "drop (length pre + 3 + json_len (drop 3 s) + length (takeWhile is_space b)) (pre @ s)
        = dropWhile is_space b @ fence @ post" .
  show ?thesis
    unfolding d py_strip_def py_lstrip_def by (rule rstrip_prefix)
qed

lemma fence_search:
  "map_option (group1 (pre @ s)) (search_from fence_re s (length pre))
   = map_option py_strip (spec_fenced s)"
proof (induction s arbitrary: pre)
  case Nil
  then show ?case by (simp add: fence_here fence_def)
next
  case (Cons x xs)
  have ih: "map_option (group1 (pre @ x # xs)) (search_from fence_re xs (length pre + 1))
          = map_option py_strip (spec_fenced xs)"
    using Cons.IH[of "pre @ [x]"] by simp
  show ?case
  proof (cases "prefix fence (x # xs)")
    case True
    show ?thesis
    proof (cases "upto_fence (skip_json (drop 3 (x # xs)))")
      case None
      have "match_here fence_re (x # xs) (length pre) 0 0 = None"
        unfolding fence_here using True None by simp
      with True None ih show ?thesis
        by (simp del: match_here.simps)
    next
      case (Some b)
      have m: "match_here fence_re (x # xs) (length pre) 0 0
         = Some (length pre + 3 + json_len (drop 3 (x # xs)) + length b + 3,
                 length pre + 3 + json_len (drop 3 (x # xs)) + length (takeWhile is_space b),
                 length pre + 3 + json_len (drop 3 (x # xs)) + length (takeWhile is_space b)
                   + length (py_strip b))"
        unfolding fence_here using True Some by simp
      have "search_from fence_re (x # xs) (length pre)
        = Some \<lparr>m_start = length pre,
                m_end = length pre + 3 + json_len (drop 3 (x # xs)) + length b + 3,
                g_start = length pre + 3 + json_len (drop 3 (x # xs)) + length (takeWhile is_space b),
                g_end = length pre + 3 + json_len (drop 3 (x # xs)) + length (takeWhile is_space b)
                   + length (py_strip b)\<rparr>"
        by (simp only: search_from.simps m option.case prod.case)
      then have "map_option (group1 (pre @ x # xs)) (search_from fence_re (x # xs) (length pre))
                 = Some (py_strip b)"
        using strip_group[OF True Some, of pre]
        by (simp add: group1_def slice_def del: match_here.simps search_from.simps)
      moreover have "spec_fenced (x # xs) = Some b"
        using True Some by simp
      ultimately show ?thesis by (simp only: option.map)
    qed
  next
    case False
    have "match_here fence_re (x # xs) (length pre) 0 0 = None"
      unfolding fence_here using False by simp
    with False ih show ?thesis
      by (simp del: match_here.simps)
  qed
qed

lemma fence_re_search:
  "map_option (group1 text) (re_search fence_re text) = map_option py_strip (spec_fenced text)"
  using fence_search[of "[]" "text"] by (simp add: re_search_def)

lemma extract_is_spec: "extract_json_from_response loads text = spec_extract loads text"
proof -
  have second: "(case re_search brace_re text of
           Some m \<Rightarrow> try_loads loads (group0 text m) (Inr JNull)
         | None \<Rightarrow> Inr JNull)
      = (case spec_braced text of
           Some s \<Rightarrow> try_loads loads s (Inr JNull)
         | None \<Rightarrow> Inr JNull)"
  proof (cases "re_search brace_re text")
    case None
    with brace_re_search[of "text"] have "spec_braced text = None" by simp
    with None show ?thesis by simp
  next
    case (Some m)
    with brace_re_search[of "text"] have "spec_braced text = Some (group0 text m)" by simp
    with Some show ?thesis by simp
  qed
  show ?thesis
  proof (cases "re_search fence_re text")
    case None
    with fence_re_search[of "text"] have "spec_fenced text = None" by simp
    with None second show ?thesis
      by (simp add: extract_json_from_response_def spec_extract_def)
  next
    case (Some m)
    with fence_re_search[of "text"] obtain body where
      b: "spec_fenced text = Some body" "group1 text m = py_strip body"
      by (cases "spec_fenced text") auto
    with Some second show ?thesis
      by (simp add: extract_json_from_response_def spec_extract_def strip_idem)
  qed
qed

subsection \<open>Texts with one block\<close>

lemma spec_fenced_skip: "96 \<notin> set pre \<Longrightarrow> spec_fenced (pre @ s) = spec_fenced s"
proof (induction pre)
  case Nil
  then show ?case by simp
next
  case (Cons x pre)
  then have "\<not> prefix fence (x # pre @ s)" using fence_head by fastforce
  with Cons show ?case by simp
qed

lemma upto_fence_body: "96 \<notin> set body \<Longrightarrow> upto_fence (body @ fence @ post) = Some body"
proof (induction body)
  case Nil
  then show ?case by (simp add: fence_def)
next
  case (Cons x body)
  then have "\<not> prefix fence (x # body @ fence @ post)" using fence_head by fastforce
  with Cons show ?case by simp
qed

lemma spec_fenced_json:
  assumes "96 \<notin> set pre" "96 \<notin> set body"
  shows "spec_fenced (pre @ fence @ U ''json'' @ body @ fence @ post) = Some body"
proof -
  have "spec_fenced (fence @ U ''json'' @ body @ fence @ post)
        = Some body"
    using upto_fence_body[OF assms(2), of post]
    by (simp add: fence_def skip_json_def U_def)
  with spec_fenced_skip[OF assms(1)] show ?thesis by simp
qed

lemma spec_fenced_none: "96 \<notin> set s \<Longrightarrow> spec_fenced s = None"
proof (induction s)
  case Nil
  then show ?case by simp
next
  case (Cons x xs)
  then have "\<not> prefix fence (x # xs)" using fence_head by fastforce
  with Cons show ?case by simp
qed

lemma through_last_mid: "125 \<notin> set post \<Longrightarrow> through_last 125 (mid @ [125] @ post) = mid @ [125]"
  by (induction mid) auto

lemma spec_braced_span:
  assumes "123 \<notin> set pre" "125 \<notin> set post"
  shows "spec_braced (pre @ [123] @ mid @ [125] @ post) = Some ([123] @ mid @ [125])"
  using assms(1)
proof (induction pre)
  case Nil
  then show ?case using through_last_mid[OF assms(2), of mid] by simp
next
  case (Cons x pre)
  then show ?case by simp
qed

lemma try_loads_Inr: "loads s = Inr v \<Longrightarrow> try_loads loads s rest = Inr v"
  by (simp add: try_loads_def)

lemma try_loads_fail:
  "loads s = Inl e \<Longrightarrow> exn_class e = JSONDecodeError \<Longrightarrow> try_loads loads s rest = rest"
  by (simp add: try_loads_def)

subsection \<open>The parse of a response\<close>

text \<open>
  Claim C1, as the code has it. For every \<open>json.loads\<close> and every text,
  \<open>extract_json_from_response\<close> is the parse in words: the fenced block (at the first
  three backquotes that three more follow, after an optional \<open>json\<close>, up to the next three
  backquotes), stripped, is parsed first; if there is none or its parse raises
  \<open>JSONDecodeError\<close>, the text from the first \<open>{\<close> through the last \<open>}\<close> is parsed; the
  first value parsed is returned, and \<open>None\<close> when each attempt has nothing to parse or
  raises \<open>JSONDecodeError\<close>. In particular a response with a block fenced by three
  backquotes and \<open>json\<close>, with no backquote before it or inside it, whose stripped
  content parses, gives that value; and a response without backquotes whose text from
  its first \<open>{\<close> through its last \<open>}\<close> parses gives that value.
\<close>

theorem extract_json_from_response_parse:
  "extract_json_from_response loads text = spec_extract loads text
   \<and> (\<forall>pre body post v.
         text = pre @ fence @ U ''json'' @ body @ fence @ post \<and> 96 \<notin> set pre \<and> 96 \<notin> set body
         \<and> loads (py_strip body) = Inr v
         \<longrightarrow> extract_json_from_response loads text = Inr v)
   \<and> (\<forall>pre mid post v.
         text = pre @ [123] @ mid @ [125] @ post \<and> 96 \<notin> set text \<and> 123 \<notin> set pre
         \<and> 125 \<notin> set post \<and> loads ([123] @ mid @ [125]) = Inr v
         \<longrightarrow> extract_json_from_response loads text = Inr v)
   \<and> ((\<forall>body. spec_fenced text = Some body
           \<longrightarrow> (\<exists>e. loads (py_strip body) = Inl e \<and> exn_class e = JSONDecodeError))
       \<and> (\<forall>s. spec_braced text = Some s
           \<longrightarrow> (\<exists>e. loads s = Inl e \<and> exn_class e = JSONDecodeError))
       \<longrightarrow> extract_json_from_response loads text = Inr JNull)"
proof (intro conjI allI impI)
  show "extract_json_from_response loads text = spec_extract loads text"
    by (rule extract_is_spec)
next
  fix pre body post v
  assume a: "text = pre @ fence @ U ''json'' @ body @ fence @ post \<and> 96 \<notin> set pre
             \<and> 96 \<notin> set body \<and> loads (py_strip body) = Inr v"
  from a have t: "text = pre @ fence @ U ''json'' @ body @ fence @ post"
    and n: "96 \<notin> set pre" and n': "96 \<notin> set body" and l: "loads (py_strip body) = Inr v"
    by (rule conjunct1, rule conjunct2[THEN conjunct1], rule conjunct2[THEN conjunct2, THEN conjunct1],
        rule conjunct2[THEN conjunct2, THEN conjunct2])
  have f: "spec_fenced text = Some body"
    unfolding t by (rule spec_fenced_json[OF n n'])
  have "spec_extract loads text = try_loads loads (py_strip body)
          (case spec_braced text of
             Some s \<Rightarrow> try_loads loads s (Inr JNull)
           | None \<Rightarrow> Inr JNull)"
    by (simp only: spec_extract_def Let_def f option.case)
  also have "\<dots> = Inr v" using l by (simp add: try_loads_def)
  finally show "extract_json_from_response loads text = Inr v"
    by (simp only: extract_is_spec)
next
  fix pre mid post v
  assume a: "text = pre @ [123] @ mid @ [125] @ post \<and> 96 \<notin> set text \<and> 123 \<notin> set pre
             \<and> 125 \<notin> set post \<and> loads ([123] @ mid @ [125]) = Inr v"
  from a have t: "text = pre @ [123] @ mid @ [125] @ post"
    and n: "96 \<notin> set text" and n': "123 \<notin> set pre" and n'': "125 \<notin> set post"
    and l: "loads ([123] @ mid @ [125]) = Inr v"
    by (rule conjunct1, rule conjunct2[THEN conjunct1], rule conjunct2[THEN conjunct2, THEN conjunct1],
        rule conjunct2[THEN conjunct2, THEN conjunct2, THEN conjunct1],
        rule conjunct2[THEN conjunct2, THEN conjunct2, THEN conjunct2])
  have f: "spec_fenced text = None" by (rule spec_fenced_none[OF n])
  have b: "spec_braced text = Some ([123] @ mid @ [125])"
    unfolding t by (rule spec_braced_span[OF n' n''])
  have "spec_extract loads text = try_loads loads ([123] @ mid @ [125]) (Inr JNull)"
    by (simp only: spec_extract_def Let_def f b option.case)
  also have "\<dots> = Inr v" using l by (simp add: try_loads_def)
  finally show "extract_json_from_response loads text = Inr v"
    by (simp only: extract_is_spec)
next
  assume a: "(\<forall>body. spec_fenced text = Some body
           \<longrightarrow> (\<exists>e. loads (py_strip body) = Inl e \<and> exn_class e = JSONDecodeError))
       \<and> (\<forall>s. spec_braced text = Some s
           \<longrightarrow> (\<exists>e. loads s = Inl e \<and> exn_class e = JSONDecodeError))"
  have second: "(case spec_braced text of
           Some s \<Rightarrow> try_loads loads s (Inr JNull)
         | None \<Rightarrow> Inr JNull) = Inr JNull"
  proof (cases "spec_braced text")
    case None
    then show ?thesis by simp
  next
    case (Some s)
    with a obtain e where "loads s = Inl e" "exn_class e = JSONDecodeError" by blast
    with Some show ?thesis by (simp add: try_loads_fail)
  qed
  have "spec_extract loads text = Inr JNull"
  proof (cases "spec_fenced text")
    case None
    with second show ?thesis by (simp add: spec_extract_def)
  next
    case (Some body)
    with a obtain e where "loads (py_strip body) = Inl e" "exn_class e = JSONDecodeError" by blast
    with Some second show ?thesis
      by (simp add: spec_extract_def try_loads_fail)
  qed
  then show "extract_json_from_response loads text = Inr JNull"
    by (simp only: extract_is_spec)
qed

theorem extract_json_from_response_witness:
  \<open>extract_json_from_response demo_loads (U ''Here: ```json {"a":1} ``` and {x}'')
     = Inr (JDict [(U ''a'', JInt 1)])
   \<and> extract_json_from_response demo_loads (U ''it is {"a": {"b": 2}} ok'')
     = Inr (JDict [(U ''a'', JDict [(U ''b'', JInt 2)])])
   \<and> extract_json_from_response demo_loads (U ''no bill here'') = Inr JNull\<close>
proof -
  have t1: \<open>U ''Here: ```json {"a":1} ``` and {x}''
            = U ''Here: '' @ fence @ U ''json'' @ U '' {"a":1} '' @ fence @ U '' and {x}''\<close>
    by (simp add: U_def fence_def)
  have l1: \<open>demo_loads (py_strip (U '' {"a":1} '')) = Inr (JDict [(U ''a'', JInt 1)])\<close>
    by (simp add: re_defs json_defs U_def)
  have n1: \<open>96 \<notin> set (U ''Here: '')\<close> and n1': \<open>96 \<notin> set (U '' {"a":1} '')\<close>
    by (simp_all add: U_def)
  have h1: \<open>U ''Here: ```json {"a":1} ``` and {x}''
              = U ''Here: '' @ fence @ U ''json'' @ U '' {"a":1} '' @ fence @ U '' and {x}''
            \<and> 96 \<notin> set (U ''Here: '') \<and> 96 \<notin> set (U '' {"a":1} '')
            \<and> demo_loads (py_strip (U '' {"a":1} '')) = Inr (JDict [(U ''a'', JInt 1)])\<close>
    by (intro conjI t1 n1 n1' l1)
  have 1: \<open>extract_json_from_response demo_loads (U ''Here: ```json {"a":1} ``` and {x}'')
     = Inr (JDict [(U ''a'', JInt 1)])\<close>
    by (rule extract_json_from_response_parse
          [where loads = demo_loads, THEN conjunct2, THEN conjunct1, rule_format, OF h1])
  have t2: \<open>U ''it is {"a": {"b": 2}} ok''
            = U ''it is '' @ [123] @ U ''"a": {"b": 2}'' @ [125] @ U '' ok''\<close>
    by (simp add: U_def)
  have l2: \<open>demo_loads ([123] @ U ''"a": {"b": 2}'' @ [125])
            = Inr (JDict [(U ''a'', JDict [(U ''b'', JInt 2)])])\<close>
    by (simp add: json_defs U_def)
  have n2: \<open>96 \<notin> set (U ''it is {"a": {"b": 2}} ok'')\<close> and n2': \<open>123 \<notin> set (U ''it is '')\<close>
    and n2'': \<open>125 \<notin> set (U '' ok'')\<close>
    by (simp_all add: U_def)
  have h2: \<open>U ''it is {"a": {"b": 2}} ok''
              = U ''it is '' @ [123] @ U ''"a": {"b": 2}'' @ [125] @ U '' ok''
            \<and> 96 \<notin> set (U ''it is {"a": {"b": 2}} ok'') \<and> 123 \<notin> set (U ''it is '')
            \<and> 125 \<notin> set (U '' ok'')
            \<and> demo_loads ([123] @ U ''"a": {"b": 2}'' @ [125])
                = Inr (JDict [(U ''a'', JDict [(U ''b'', JInt 2)])])\<close>
    by (intro conjI t2 n2 n2' n2'' l2)
  have 2: \<open>extract_json_from_response demo_loads (U ''it is {"a": {"b": 2}} ok'')
     = Inr (JDict [(U ''a'', JDict [(U ''b'', JInt 2)])])\<close>
    by (rule extract_json_from_response_parse
          [where loads = demo_loads, THEN conjunct2, THEN conjunct2, THEN conjunct1, rule_format,
           OF h2])
  have f3: "spec_fenced (U ''no bill here'') = None" and b3: "spec_braced (U ''no bill here'') = None"
    by (simp_all add: U_def fence_def)
  have h3: "(\<forall>body. spec_fenced (U ''no bill here'') = Some body
               \<longrightarrow> (\<exists>e. demo_loads (py_strip body) = Inl e \<and> exn_class e = JSONDecodeError))
            \<and> (\<forall>s. spec_braced (U ''no bill here'') = Some s
               \<longrightarrow> (\<exists>e. demo_loads s = Inl e \<and> exn_class e = JSONDecodeError))"
    unfolding f3 b3 by simp
  have 3: "extract_json_from_response demo_loads (U ''no bill here'') = Inr JNull"
    by (rule extract_json_from_response_parse
          [where loads = demo_loads, THEN conjunct2, THEN conjunct2, THEN conjunct2, rule_format,
           OF h3])
  from 1 2 3 show ?thesis by (intro conjI)
qed

text \<open>
  The claim as the specification states it parses the first brace-delimited substring,
  and returns the object of every response with a fenced JSON block. Of two objects
  side by side the first parses, but the text from the first \<open>{\<close> through the last \<open>}\<close> does
  not; and a fenced JSON block after a fenced block that is not JSON is not reached.
\<close>

theorem extract_json_from_response_counterexample:
  \<open>demo_loads (U ''{"a":1}'') = Inr (JDict [(U ''a'', JInt 1)])
   \<and> extract_json_from_response demo_loads (U ''{"a":1} {"b":2}'') = Inr JNull
   \<and> extract_json_from_response demo_loads (U ''```{1}``` ```json{"a":1}```'') = Inr JNull\<close>
proof -
  have a: \<open>demo_loads (U ''{"a":1}'') = Inr (JDict [(U ''a'', JInt 1)])\<close>
    by (simp add: json_defs U_def)
  have b: \<open>extract_json_from_response demo_loads (U ''{"a":1} {"b":2}'') = Inr JNull\<close>
    by (simp add: re_defs json_defs extract_json_from_response_def try_loads_def U_def)
  have c: \<open>extract_json_from_response demo_loads (U ''```{1}``` ```json{"a":1}```'') = Inr JNull\<close>
    by (simp add: re_defs json_defs extract_json_from_response_def try_loads_def U_def)
  from a b c show ?thesis by (intro conjI)
qed

end
